theory Spec2Isabelle
  imports Main "HOL-Library.Word"
begin

section \<open>Memory, failures and the list object\<close>

text \<open>
  The container of \<^verbatim>\<open>src/main.cpp\<close> is a chain of heap nodes behind a sentinel that
  lives inside the list object. Nodes are created by \<^verbatim>\<open>new Node(value, next)\<close> and
  released by \<^verbatim>\<open>delete\<close>, so the model carries an explicit store: a node's address is
  its index in the store, a released node leaves \<open>None\<close> at its index, and a new node
  is put at the end of the store, so no address is ever handed out twice.
\<close>

type_synonym addr = nat

text \<open>
  What a \<^verbatim>\<open>throw\<close> carries: an object of a class derived from \<^verbatim>\<open>std::exception\<close>
  (as \<^verbatim>\<open>std::bad_alloc\<close> is), which the handlers \<^verbatim>\<open>catch (const std::exception &)\<close>
  of the source accept, or an object of any other type, which they let pass.
\<close>

datatype exn = Std_exception | Foreign_exception

text \<open>
  \<^verbatim>\<open>struct Node { Type value; Node *next_node = nullptr; }\<close>, with the member
  \<^verbatim>\<open>value\<close> as the field \<open>val\<close>; \<open>None\<close> is \<^verbatim>\<open>nullptr\<close>.
\<close>

record 'a Node =
  val :: 'a
  next_node :: "addr option"

text \<open>The store, and the number of node creations attempted so far.\<close>

record 'a world =
  heap :: "'a Node option list"
  clock :: nat

text \<open>
  Whether the \<open>k\<close>-th node creation of a run fails (operator \<^verbatim>\<open>new\<close> or the copy
  constructor of \<^verbatim>\<open>Type\<close> throws) is decided by the environment: a fault plan on the
  number of the attempt and on the value being copied. The countdown of the tests'
  \<^verbatim>\<open>ThrowOnCopy\<close> is one such plan.
\<close>

type_synonym 'a faults = "nat \<Rightarrow> 'a \<Rightarrow> exn option"

text \<open>
  The list object: the \<^verbatim>\<open>next_node\<close> link of its sentinel \<^verbatim>\<open>head_\<close> (whose value is never
  read) and \<^verbatim>\<open>size_t size_\<close> (the field \<open>size_field\<close>), taken as a 64-bit unsigned integer.
\<close>

record SingleLinkedList =
  head_next_node :: "addr option"
  size_field :: "64 word"

text \<open>
  How a call ends: it returns, it throws (the state at the moment the exception leaves
  the call is kept), or its behaviour is undefined (a dangling or null pointer is
  dereferenced, an iterator leaves its array).
\<close>

datatype 's outcome = Done 's | Raised exn 's | Undefined

definition cell :: "'a Node option list \<Rightarrow> addr \<Rightarrow> 'a Node option" where
  "cell h a = (if a < length h then h ! a else None)"

text \<open>
  \<^verbatim>\<open>new Node(value, next)\<close>: when the allocation or the copy of the value throws, no
  node exists afterwards (the language releases the memory of a node whose constructor
  threw); otherwise the node is live at a fresh address.
\<close>

definition new_Node ::
  "'a faults \<Rightarrow> 'a \<Rightarrow> addr option \<Rightarrow> 'a world \<Rightarrow> (exn + addr) \<times> 'a world" where
  "new_Node orc v nxt w =
     (case orc (clock w) v of
        Some e \<Rightarrow> (Inl e, w\<lparr>clock := Suc (clock w)\<rparr>)
      | None \<Rightarrow> (Inr (length (heap w)),
                 w\<lparr>heap := heap w @ [Some \<lparr>val = v, next_node = nxt\<rparr>],
                   clock := Suc (clock w)\<rparr>))"

text \<open>\<^verbatim>\<open>delete target\<close>.\<close>

definition delete_Node :: "addr \<Rightarrow> 'a world \<Rightarrow> 'a world" where
  "delete_Node a w = w\<lparr>heap := (heap w)[a := None]\<rparr>"

section \<open>The operations of the container\<close>

definition SingleLinkedList_default :: SingleLinkedList where
  "SingleLinkedList_default = \<lparr>head_next_node = None, size_field = 0\<rparr>"

definition GetSize :: "SingleLinkedList \<Rightarrow> 64 word" where
  "GetSize l = size_field l"

definition IsEmpty :: "SingleLinkedList \<Rightarrow> bool" where
  "IsEmpty l = (head_next_node l = None)"

text \<open>
  \<^verbatim>\<open>head_.next_node = new Node(value, head_.next_node); size_++;\<close>
  The assignment to the head link happens after the node is built.
\<close>

definition PushFront ::
  "'a faults \<Rightarrow> 'a \<Rightarrow> SingleLinkedList \<Rightarrow> 'a world \<Rightarrow> (SingleLinkedList \<times> 'a world) outcome" where
  "PushFront orc v l w =
     (case new_Node orc v (head_next_node l) w of
        (Inl e, w') \<Rightarrow> Raised e (l, w')
      | (Inr a, w') \<Rightarrow> Done (l\<lparr>head_next_node := Some a, size_field := size_field l + 1\<rparr>, w'))"

text \<open>
  \<^verbatim>\<open>Clear\<close>: while the head link is not null, unlink the first node, delete it and
  decrement \<^verbatim>\<open>size_\<close>. Every round releases a live node, so the loop ends.
\<close>

definition live :: "'a Node option list \<Rightarrow> nat" where
  "live h = length (filter (\<lambda>c. c \<noteq> None) h)"

lemma live_delete:
  "cell h a = Some n \<Longrightarrow> live (h[a := None]) < live h"
proof (induction h arbitrary: a)
  case Nil
  then show ?case by (simp add: cell_def)
next
  case (Cons c h)
  show ?case
  proof (cases a)
    case 0
    with Cons.prems show ?thesis by (simp add: cell_def live_def)
  next
    case (Suc b)
    with Cons.prems have "cell h b = Some n" by (simp add: cell_def split: if_splits)
    from Cons.IH [OF this] Suc show ?thesis by (simp add: live_def)
  qed
qed

function Clear :: "SingleLinkedList \<Rightarrow> 'a world \<Rightarrow> (SingleLinkedList \<times> 'a world) outcome" where
  "Clear l w =
     (case head_next_node l of
        None \<Rightarrow> Done (l, w)
      | Some target \<Rightarrow>
          (case cell (heap w) target of
             None \<Rightarrow> Undefined
           | Some n \<Rightarrow>
               Clear (l\<lparr>head_next_node := next_node n, size_field := size_field l - 1\<rparr>)
                     (delete_Node target w)))"
  by pat_completeness auto
termination
  by (relation "measure (\<lambda>(l, w). live (heap w))") (auto simp: delete_Node_def live_delete)


text \<open>
  \<^verbatim>\<open>SingleLinkedList(std::initializer_list<Type> values)\<close>: the iterator \<^verbatim>\<open>it\<close> is an
  index into the array of the values. The \<^verbatim>\<open>do ... while\<close> decrements it before it
  tests anything; stepping below the first element of the array is undefined. There is no
  handler: an exception leaves the constructor at once.
\<close>

fun init_loop ::
  "'a faults \<Rightarrow> 'a list \<Rightarrow> nat \<Rightarrow> SingleLinkedList \<Rightarrow> 'a world \<Rightarrow>
   (SingleLinkedList \<times> 'a world) outcome" where
  "init_loop orc values 0 l w = Undefined"
| "init_loop orc values (Suc it) l w =
     (case new_Node orc (values ! it) (head_next_node l) w of
        (Inl e, w') \<Rightarrow> Raised e (l, w')
      | (Inr a, w') \<Rightarrow>
          (let l' = l\<lparr>head_next_node := Some a, size_field := size_field l + 1\<rparr>
           in if it \<noteq> 0 then init_loop orc values it l' w' else Done (l', w')))"

definition SingleLinkedList_init ::
  "'a faults \<Rightarrow> 'a list \<Rightarrow> 'a world \<Rightarrow> (SingleLinkedList \<times> 'a world) outcome" where
  "SingleLinkedList_init orc values w =
     init_loop orc values (length values) \<lparr>head_next_node = None, size_field = 0\<rparr> w"

subsection \<open>Iterators\<close>

text \<open>
  The member \<^verbatim>\<open>Node *node_\<close> of \<^verbatim>\<open>BasicIterator\<close>: the address of the sentinel of the
  list at hand (only the mutable \<^verbatim>\<open>end()\<close> makes such an iterator, and never returns
  it), or a link as the nodes store it. Two iterators are equal when these are.
\<close>

datatype BasicIterator = At_head | At "addr option"

text \<open>\<^verbatim>\<open>node_->next_node\<close> and \<^verbatim>\<open>node_->value\<close>; \<open>None\<close> when \<^verbatim>\<open>node_\<close> is null or dangling.
  The value of the sentinel is never read by the source and is not modelled.\<close>

definition next_of ::
  "SingleLinkedList \<Rightarrow> 'a Node option list \<Rightarrow> BasicIterator \<Rightarrow> addr option option" where
  "next_of l h it =
     (case it of
        At_head \<Rightarrow> Some (head_next_node l)
      | At None \<Rightarrow> None
      | At (Some a) \<Rightarrow> map_option next_node (cell h a))"

definition value_of :: "'a Node option list \<Rightarrow> BasicIterator \<Rightarrow> 'a option" where
  "value_of h it =
     (case it of
        At_head \<Rightarrow> None
      | At None \<Rightarrow> None
      | At (Some a) \<Rightarrow> map_option val (cell h a))"

definition begin_it :: "SingleLinkedList \<Rightarrow> BasicIterator" where
  "begin_it l = At (head_next_node l)"

definition cbegin :: "SingleLinkedList \<Rightarrow> BasicIterator" where
  "cbegin l = At (head_next_node l)"

text \<open>The read-only \<^verbatim>\<open>end()\<close> and \<^verbatim>\<open>cend()\<close>: \<^verbatim>\<open>ConstIterator(nullptr)\<close>.\<close>

definition end_const :: "SingleLinkedList \<Rightarrow> BasicIterator" where
  "end_const l = At None"

definition cend :: "SingleLinkedList \<Rightarrow> BasicIterator" where
  "cend l = end_const l"

text \<open>
  The mutable \<^verbatim>\<open>end()\<close>: \<^verbatim>\<open>Iterator it(&head_); while (it.node_->next_node != nullptr) ++it;
  return ++it;\<close>. On a chain that never reaches null the walk does not return.
\<close>

partial_function (option) end_walk ::
  "SingleLinkedList \<Rightarrow> 'a Node option list \<Rightarrow> BasicIterator \<Rightarrow> BasicIterator outcome option" where
  "end_walk l h it =
     (case next_of l h it of
        None \<Rightarrow> Some Undefined
      | Some nxt \<Rightarrow> if nxt \<noteq> None then end_walk l h (At nxt) else Some (Done it))"

declare end_walk.simps [code]

definition end_mut ::
  "SingleLinkedList \<Rightarrow> 'a Node option list \<Rightarrow> BasicIterator outcome option" where
  "end_mut l h =
     (case end_walk l h At_head of
        None \<Rightarrow> None
      | Some (Done it) \<Rightarrow>
          (case next_of l h it of
             None \<Rightarrow> Some Undefined
           | Some nxt \<Rightarrow> Some (Done (At nxt)))
      | Some (Raised e it) \<Rightarrow> Some (Raised e it)
      | Some Undefined \<Rightarrow> Some Undefined)"

text \<open>
  What a traversal \<^verbatim>\<open>for (it = l.begin(); it != l.end(); ++it)\<close> over a read-only list
  reads through \<^verbatim>\<open>*it\<close>, in order.
\<close>

partial_function (option) traverse ::
  "SingleLinkedList \<Rightarrow> 'a Node option list \<Rightarrow> BasicIterator \<Rightarrow> 'a list \<Rightarrow> 'a list outcome option" where
  "traverse l h it seen =
     (if it \<noteq> end_const l then
        (case value_of h it of
           None \<Rightarrow> Some Undefined
         | Some v \<Rightarrow>
             (case next_of l h it of
                None \<Rightarrow> Some Undefined
              | Some nxt \<Rightarrow> traverse l h (At nxt) (seen @ [v])))
      else Some (Done seen))"

declare traverse.simps [code]

definition elements :: "SingleLinkedList \<Rightarrow> 'a Node option list \<Rightarrow> 'a list outcome option" where
  "elements l h = traverse l h (begin_it l) []"

subsection \<open>Copy construction, swap and assignment\<close>

text \<open>
  The first loop of the copy constructor: \<^verbatim>\<open>while (other_it != other.end())
  { tmp.PushFront(*other_it); ++other_it; }\<close> on the read-only \<^verbatim>\<open>other\<close>.
\<close>

partial_function (option) copy_loop1 ::
  "'a faults \<Rightarrow> SingleLinkedList \<Rightarrow> BasicIterator \<Rightarrow> SingleLinkedList \<Rightarrow> 'a world \<Rightarrow>
   (SingleLinkedList \<times> 'a world) outcome option" where
  "copy_loop1 orc other other_it tmp w =
     (if other_it \<noteq> end_const other then
        (case value_of (heap w) other_it of
           None \<Rightarrow> Some Undefined
         | Some v \<Rightarrow>
             (case PushFront orc v tmp w of
                Done (tmp', w') \<Rightarrow>
                  (case next_of other (heap w') other_it of
                     None \<Rightarrow> Some Undefined
                   | Some nxt \<Rightarrow> copy_loop1 orc other (At nxt) tmp' w')
              | Raised e s \<Rightarrow> Some (Raised e s)
              | Undefined \<Rightarrow> Some Undefined))
      else Some (Done (tmp, w)))"

declare copy_loop1.simps [code]

text \<open>
  The second loop: \<^verbatim>\<open>while (tmp_it != tmp.end()) { PushFront(*tmp_it); ++tmp_it; }\<close>;
  \<^verbatim>\<open>tmp\<close> is mutable, so every test walks \<^verbatim>\<open>tmp\<close> to its end.
\<close>

partial_function (option) copy_loop2 ::
  "'a faults \<Rightarrow> SingleLinkedList \<Rightarrow> BasicIterator \<Rightarrow> SingleLinkedList \<Rightarrow> 'a world \<Rightarrow>
   (SingleLinkedList \<times> 'a world) outcome option" where
  "copy_loop2 orc tmp tmp_it this w =
     (case end_mut tmp (heap w) of
        None \<Rightarrow> None
      | Some (Done tmp_end) \<Rightarrow>
          (if tmp_it \<noteq> tmp_end then
             (case value_of (heap w) tmp_it of
                None \<Rightarrow> Some Undefined
              | Some v \<Rightarrow>
                  (case PushFront orc v this w of
                     Done (this', w') \<Rightarrow>
                       (case next_of tmp (heap w') tmp_it of
                          None \<Rightarrow> Some Undefined
                        | Some nxt \<Rightarrow> copy_loop2 orc tmp (At nxt) this' w')
                   | Raised e s \<Rightarrow> Some (Raised e s)
                   | Undefined \<Rightarrow> Some Undefined))
           else Some (Done (this, w)))
      | Some (Raised e x) \<Rightarrow> Some Undefined
      | Some Undefined \<Rightarrow> Some Undefined)"

declare copy_loop2.simps [code]

text \<open>
  An exception leaves the \<^verbatim>\<open>try\<close> block of the copy constructor: the local \<^verbatim>\<open>tmp\<close> is
  destroyed (its destructor calls \<^verbatim>\<open>Clear\<close>), then the handler
  \<^verbatim>\<open>catch (const std::exception &) { Clear(); throw; }\<close> runs if the exception is of
  that class; any other exception passes the handler by.
\<close>

definition copy_unwind ::
  "exn \<Rightarrow> SingleLinkedList \<Rightarrow> SingleLinkedList \<Rightarrow> 'a world \<Rightarrow>
   (SingleLinkedList \<times> 'a world) outcome" where
  "copy_unwind e tmp this w =
     (case Clear tmp w of
        Done (tmp', w1) \<Rightarrow>
          (if e = Std_exception then
             (case Clear this w1 of
                Done (this', w2) \<Rightarrow> Raised e (this', w2)
              | Raised e' s \<Rightarrow> Raised e' s
              | Undefined \<Rightarrow> Undefined)
           else Raised e (this, w1))
      | Raised e' s \<Rightarrow> Raised e' s
      | Undefined \<Rightarrow> Undefined)"

text \<open>
  \<^verbatim>\<open>SingleLinkedList(const SingleLinkedList &other)\<close>. The object under construction
  starts with a null head link (the default member initialiser of \<^verbatim>\<open>Node\<close>) and
  \<^verbatim>\<open>size_ = 0\<close>. On normal exit from the \<^verbatim>\<open>try\<close> block \<^verbatim>\<open>tmp\<close> is destroyed too.
\<close>

definition SingleLinkedList_copy ::
  "'a faults \<Rightarrow> SingleLinkedList \<Rightarrow> 'a world \<Rightarrow> (SingleLinkedList \<times> 'a world) outcome option" where
  "SingleLinkedList_copy orc other w =
     (let this = \<lparr>head_next_node = None, size_field = 0\<rparr>;
          tmp = SingleLinkedList_default
      in case copy_loop1 orc other (begin_it other) tmp w of
           None \<Rightarrow> None
         | Some (Raised e (tmp1, w1)) \<Rightarrow> Some (copy_unwind e tmp1 this w1)
         | Some Undefined \<Rightarrow> Some Undefined
         | Some (Done (tmp1, w1)) \<Rightarrow>
             (case copy_loop2 orc tmp1 (begin_it tmp1) this w1 of
                None \<Rightarrow> None
              | Some (Raised e (this2, w2)) \<Rightarrow> Some (copy_unwind e tmp1 this2 w2)
              | Some Undefined \<Rightarrow> Some Undefined
              | Some (Done (this2, w2)) \<Rightarrow>
                  (case Clear tmp1 w2 of
                     Done (tmp', w3) \<Rightarrow> Some (Done (this2, w3))
                   | Raised e s \<Rightarrow> Some (Raised e s)
                   | Undefined \<Rightarrow> Some Undefined)))"

text \<open>\<^verbatim>\<open>swap\<close>: two \<^verbatim>\<open>std::swap\<close> calls on the head links and on the counters. The
  store is handed through, as the body has no statement on it.\<close>

definition swap ::
  "SingleLinkedList \<Rightarrow> SingleLinkedList \<Rightarrow> 'a world \<Rightarrow>
   SingleLinkedList \<times> SingleLinkedList \<times> 'a world" where
  "swap this other w =
     (this\<lparr>head_next_node := head_next_node other, size_field := size_field other\<rparr>,
      other\<lparr>head_next_node := head_next_node this, size_field := size_field this\<rparr>,
      w)"

text \<open>
  \<^verbatim>\<open>operator=\<close>: \<^verbatim>\<open>try { SingleLinkedList tmp(rhs); swap(tmp); } catch (...) { throw; }\<close>.
  When the constructor of \<^verbatim>\<open>tmp\<close> throws, \<^verbatim>\<open>tmp\<close> never existed and has no destructor
  call; otherwise \<^verbatim>\<open>tmp\<close>, which holds the former chain after the swap, is destroyed at
  the end of the block. For \<^verbatim>\<open>x = x\<close> the argument \<open>rhs\<close> is \<open>this\<close>.
\<close>

definition assign ::
  "'a faults \<Rightarrow> SingleLinkedList \<Rightarrow> SingleLinkedList \<Rightarrow> 'a world \<Rightarrow>
   (SingleLinkedList \<times> 'a world) outcome option" where
  "assign orc this rhs w =
     (case SingleLinkedList_copy orc rhs w of
        None \<Rightarrow> None
      | Some (Raised e (tmp, w1)) \<Rightarrow> Some (Raised e (this, w1))
      | Some Undefined \<Rightarrow> Some Undefined
      | Some (Done (tmp, w1)) \<Rightarrow>
          (case swap this tmp w1 of
             (this', tmp', w2) \<Rightarrow>
               (case Clear tmp' w2 of
                  Done (tmp'', w3) \<Rightarrow> Some (Done (this', w3))
                | Raised e s \<Rightarrow> Some (Raised e s)
                | Undefined \<Rightarrow> Some Undefined)))"


subsection \<open>Comparisons\<close>

text \<open>
  \<^verbatim>\<open>operator==\<close>: unequal sizes give \<^verbatim>\<open>false\<close>; otherwise both lists are walked in step
  until the left one ends, and the first pair with \<^verbatim>\<open>*lhs_it != *rhs_it\<close> gives
  \<^verbatim>\<open>false\<close>. The comparison of two elements is \<^verbatim>\<open>operator!=\<close> of \<^verbatim>\<open>Type\<close>, whatever
  that type defines it to be: the parameter \<open>ne\<close>.
\<close>

partial_function (option) eq_loop ::
  "('a \<Rightarrow> 'a \<Rightarrow> bool) \<Rightarrow> 'a Node option list \<Rightarrow> SingleLinkedList \<Rightarrow> SingleLinkedList \<Rightarrow>
   BasicIterator \<Rightarrow> BasicIterator \<Rightarrow> bool outcome option" where
  "eq_loop ne h lhs rhs lhs_it rhs_it =
     (if lhs_it \<noteq> end_const lhs then
        (case value_of h lhs_it of
           None \<Rightarrow> Some Undefined
         | Some a \<Rightarrow>
             (case value_of h rhs_it of
                None \<Rightarrow> Some Undefined
              | Some b \<Rightarrow>
                  if ne a b then Some (Done False)
                  else
                    (case next_of lhs h lhs_it of
                       None \<Rightarrow> Some Undefined
                     | Some n1 \<Rightarrow>
                         (case next_of rhs h rhs_it of
                            None \<Rightarrow> Some Undefined
                          | Some n2 \<Rightarrow> eq_loop ne h lhs rhs (At n1) (At n2)))))
      else Some (Done True))"

declare eq_loop.simps [code]

definition op_eq ::
  "('a \<Rightarrow> 'a \<Rightarrow> bool) \<Rightarrow> 'a Node option list \<Rightarrow> SingleLinkedList \<Rightarrow> SingleLinkedList \<Rightarrow>
   bool outcome option" where
  "op_eq ne h lhs rhs =
     (if GetSize lhs \<noteq> GetSize rhs then Some (Done False)
      else eq_loop ne h lhs rhs (begin_it lhs) (begin_it rhs))"

text \<open>Negation of a returned truth value: \<^verbatim>\<open>!(...)\<close>.\<close>

fun negate :: "bool outcome option \<Rightarrow> bool outcome option" where
  "negate None = None"
| "negate (Some (Done b)) = Some (Done (\<not> b))"
| "negate (Some (Raised e b)) = Some (Raised e b)"
| "negate (Some Undefined) = Some Undefined"

definition op_neq ::
  "('a \<Rightarrow> 'a \<Rightarrow> bool) \<Rightarrow> 'a Node option list \<Rightarrow> SingleLinkedList \<Rightarrow> SingleLinkedList \<Rightarrow>
   bool outcome option" where
  "op_neq ne h lhs rhs = negate (op_eq ne h lhs rhs)"

text \<open>
  \<^verbatim>\<open>std::lexicographical_compare(first1, last1, first2, last2)\<close> of the standard library,
  as the C++ standard gives it:
  \<^verbatim>\<open>for (; first1 != last1 && first2 != last2; ++first1, ++first2)
  { if (*first1 < *first2) return true; if (*first2 < *first1) return false; }
  return first1 == last1 && first2 != last2;\<close>
\<close>

partial_function (option) lexicographical_compare ::
  "('a::linorder) Node option list \<Rightarrow> SingleLinkedList \<Rightarrow> SingleLinkedList \<Rightarrow>
   BasicIterator \<Rightarrow> BasicIterator \<Rightarrow> BasicIterator \<Rightarrow> BasicIterator \<Rightarrow> bool outcome option" where
  "lexicographical_compare h lhs rhs first1 last1 first2 last2 =
     (if first1 \<noteq> last1 \<and> first2 \<noteq> last2 then
        (case value_of h first1 of
           None \<Rightarrow> Some Undefined
         | Some a \<Rightarrow>
             (case value_of h first2 of
                None \<Rightarrow> Some Undefined
              | Some b \<Rightarrow>
                  if a < b then Some (Done True)
                  else if b < a then Some (Done False)
                  else
                    (case next_of lhs h first1 of
                       None \<Rightarrow> Some Undefined
                     | Some n1 \<Rightarrow>
                         (case next_of rhs h first2 of
                            None \<Rightarrow> Some Undefined
                          | Some n2 \<Rightarrow>
                              lexicographical_compare h lhs rhs (At n1) last1 (At n2) last2))))
      else Some (Done (first1 = last1 \<and> first2 \<noteq> last2)))"

declare lexicographical_compare.simps [code]

definition op_less ::
  "('a::linorder) Node option list \<Rightarrow> SingleLinkedList \<Rightarrow> SingleLinkedList \<Rightarrow>
   bool outcome option" where
  "op_less h lhs rhs =
     lexicographical_compare h lhs rhs (begin_it lhs) (end_const lhs) (begin_it rhs) (end_const rhs)"

text \<open>\<^verbatim>\<open>lhs == rhs || lhs < rhs\<close>: the right operand is evaluated only when the left one is
  false.\<close>

definition op_le ::
  "('a \<Rightarrow> 'a \<Rightarrow> bool) \<Rightarrow> ('a::linorder) Node option list \<Rightarrow> SingleLinkedList \<Rightarrow>
   SingleLinkedList \<Rightarrow> bool outcome option" where
  "op_le ne h lhs rhs =
     (case op_eq ne h lhs rhs of
        Some (Done False) \<Rightarrow> op_less h lhs rhs
      | r \<Rightarrow> r)"

definition op_gt ::
  "('a \<Rightarrow> 'a \<Rightarrow> bool) \<Rightarrow> ('a::linorder) Node option list \<Rightarrow> SingleLinkedList \<Rightarrow>
   SingleLinkedList \<Rightarrow> bool outcome option" where
  "op_gt ne h lhs rhs = negate (op_le ne h lhs rhs)"

definition op_ge ::
  "('a \<Rightarrow> 'a \<Rightarrow> bool) \<Rightarrow> ('a::linorder) Node option list \<Rightarrow> SingleLinkedList \<Rightarrow>
   SingleLinkedList \<Rightarrow> bool outcome option" where
  "op_ge ne h lhs rhs =
     (case op_gt ne h lhs rhs of
        Some (Done False) \<Rightarrow> op_eq ne h lhs rhs
      | r \<Rightarrow> r)"

section \<open>Well-formed lists and auxiliary notions\<close>

text \<open>
  The data model: from the head link the chain runs through live nodes, with the
  addresses and values listed in \<open>ns\<close>, and ends in null; the counter holds the number
  of nodes.
\<close>

fun chain :: "'a Node option list \<Rightarrow> addr option \<Rightarrow> (addr \<times> 'a) list \<Rightarrow> bool" where
  "chain h p [] = (p = None)"
| "chain h p ((a, v) # ns) =
     (p = Some a \<and>
      (case cell h a of
         None \<Rightarrow> False
       | Some n \<Rightarrow> val n = v \<and> chain h (next_node n) ns))"

definition wf_list :: "'a world \<Rightarrow> SingleLinkedList \<Rightarrow> (addr \<times> 'a) list \<Rightarrow> bool" where
  "wf_list w l ns =
     (chain (heap w) (head_next_node l) ns \<and> size_field l = of_nat (length ns))"

text \<open>
  The lexicographic order in the words of the specification: the first differing pair
  decides, and a proper prefix is less.
\<close>

fun lex_less :: "('a::linorder) list \<Rightarrow> 'a list \<Rightarrow> bool" where
  "lex_less [] [] = False"
| "lex_less [] (y # ys) = True"
| "lex_less (x # xs) [] = False"
| "lex_less (x # xs) (y # ys) = (if x \<noteq> y then x < y else lex_less xs ys)"

text \<open>Pushing the values \<open>vs\<close> to the front one after the other, up to the first
  failure: what both loops of the copy constructor do on a well-formed chain.\<close>

fun push_all ::
  "'a faults \<Rightarrow> 'a list \<Rightarrow> SingleLinkedList \<Rightarrow> 'a world \<Rightarrow>
   (SingleLinkedList \<times> 'a world) outcome" where
  "push_all orc [] l w = Done (l, w)"
| "push_all orc (v # vs) l w =
     (case PushFront orc v l w of
        Done (l', w') \<Rightarrow> push_all orc vs l' w'
      | Raised e s \<Rightarrow> Raised e s
      | Undefined \<Rightarrow> Undefined)"

text \<open>The store after the nodes at the addresses \<open>as\<close> were deleted.\<close>

fun release :: "addr list \<Rightarrow> 'a Node option list \<Rightarrow> 'a Node option list" where
  "release [] h = h"
| "release (a # as) h = release as (h[a := None])"

text \<open>
  The first failure met when nodes for the values \<open>vs\<close> are created one after the other,
  the first of them by attempt number \<open>k\<close>; \<open>None\<close> when all of them are created.
  The copy constructor, on a source with the values \<open>vs\<close>, creates nodes for
  \<open>vs @ rev vs\<close>: the values in their order for the temporary list, which holds them
  reversed, and then the values of the temporary list in its order for the new list.
\<close>

fun first_fault :: "'a faults \<Rightarrow> nat \<Rightarrow> 'a list \<Rightarrow> exn option" where
  "first_fault orc k [] = None"
| "first_fault orc k (v # vs) =
     (case orc k v of
        Some e \<Rightarrow> Some e
      | None \<Rightarrow> first_fault orc (Suc k) vs)"

text \<open>
  The fault plans of the tests: no failure at all, and the countdown of \<^verbatim>\<open>ThrowOnCopy\<close>,
  where attempt number \<open>n\<close> (counted from 0) throws.
\<close>

definition no_faults :: "'a faults" where
  "no_faults k v = None"

definition fail_at :: "nat \<Rightarrow> exn \<Rightarrow> 'a faults" where
  "fail_at n e k v = (if k = n then Some e else None)"

text \<open>Every slot of the store of \<open>w\<close> is in the store of \<open>w'\<close>, at its address and with
  its content.\<close>

definition preserved :: "'a world \<Rightarrow> 'a world \<Rightarrow> bool" where
  "preserved w w' = (take (length (heap w)) (heap w') = heap w)"

text \<open>
  Two element comparisons. The first is \<^verbatim>\<open>operator!=\<close> of a type such as \<^verbatim>\<open>int\<close> or
  \<^verbatim>\<open>std::string\<close>, where it is the negation of equality. The second is that of an
  element type with a value that differs from every value, itself included, as the
  not-a-number value of \<^verbatim>\<open>double\<close> does.
\<close>

definition builtin_ne :: "'a \<Rightarrow> 'a \<Rightarrow> bool" where
  "builtin_ne a b = (a \<noteq> b)"

datatype element = Number int | NaN

fun element_ne :: "element \<Rightarrow> element \<Rightarrow> bool" where
  "element_ne (Number x) (Number y) = (x \<noteq> y)"
| "element_ne a b = True"

section \<open>Facts about the store and about chains\<close>

lemma cell_Some_less: "cell h a = Some n \<Longrightarrow> a < length h"
  by (simp add: cell_def split: if_splits)

lemma cell_append_old: "a < length h \<Longrightarrow> cell (h @ ext) a = cell h a"
  by (simp add: cell_def nth_append)

lemma cell_append_new: "cell (h @ [x]) (length h) = x"
  by (simp add: cell_def)

lemma cell_update_other: "a \<noteq> b \<Longrightarrow> cell (h[b := x]) a = cell h a"
  by (simp add: cell_def)

lemma cell_update_same: "cell (h[a := None]) a = None"
  by (simp add: cell_def)

lemma chain_Cons:
  "chain h p ((a, v) # ns) =
     (p = Some a \<and> (\<exists>n. cell h a = Some n \<and> val n = v \<and> chain h (next_node n) ns))"
  by (simp split: option.splits)

declare chain.simps(2) [simp del]
declare chain_Cons [simp]

lemma chain_append: "chain h p ns \<Longrightarrow> chain (h @ ext) p ns"
proof (induction ns arbitrary: p)
  case Nil
  then show ?case by simp
next
  case (Cons x ns)
  obtain a v where x: "x = (a, v)" by (cases x)
  from Cons.prems x obtain n where n: "p = Some a" "cell h a = Some n" "val n = v"
    "chain h (next_node n) ns"
    by auto
  from n(2) have "cell (h @ ext) a = Some n"
    by (simp add: cell_append_old cell_Some_less)
  with n Cons.IH [OF n(4)] x show ?case by simp
qed

lemma chain_bound: "chain h p ns \<Longrightarrow> a \<in> fst ` set ns \<Longrightarrow> a < length h"
proof (induction ns arbitrary: p)
  case Nil
  then show ?case by simp
next
  case (Cons x ns)
  obtain b v where x: "x = (b, v)" by (cases x)
  from Cons.prems(1) x obtain n where n: "cell h b = Some n" "chain h (next_node n) ns"
    by auto
  show ?case
  proof (cases "a = b")
    case True
    with n(1) show ?thesis by (simp add: cell_Some_less)
  next
    case False
    with Cons.prems(2) x have "a \<in> fst ` set ns" by auto
    with Cons.IH [OF n(2)] show ?thesis by simp
  qed
qed

lemma chain_unique: "chain h p ns \<Longrightarrow> chain h p ms \<Longrightarrow> ns = ms"
proof (induction ns arbitrary: p ms)
  case Nil
  then show ?case by (cases ms) auto
next
  case (Cons x ns)
  obtain a v where x: "x = (a, v)" by (cases x)
  from Cons.prems(1) x obtain n where n: "p = Some a" "cell h a = Some n" "val n = v"
    "chain h (next_node n) ns"
    by auto
  from Cons.prems(2) n(1) obtain y ms' where ms: "ms = y # ms'" by (cases ms) auto
  obtain b u where y: "y = (b, u)" by (cases y)
  from Cons.prems(2) ms y n have "b = a" "u = v" "chain h (next_node n) ms'"
    by auto
  with Cons.IH [OF n(4)] x y ms show ?case by simp
qed

lemma chain_suffix:
  "chain h p (ns @ (a, v) # ms) \<Longrightarrow> chain h (Some a) ((a, v) # ms)"
proof (induction ns arbitrary: p)
  case Nil
  then show ?case by simp
next
  case (Cons x ns)
  obtain b u where x: "x = (b, u)" by (cases x)
  from Cons.prems x obtain n where "cell h b = Some n" "chain h (next_node n) (ns @ (a, v) # ms)"
    by auto
  from Cons.IH [OF this(2)] show ?case .
qed

lemma chain_head_fresh:
  assumes "chain h p ((a, v) # ns)"
  shows "a \<notin> fst ` set ns"
proof
  assume "a \<in> fst ` set ns"
  then obtain u where "(a, u) \<in> set ns" by auto
  then obtain ns1 ns2 where split: "ns = ns1 @ (a, u) # ns2"
    by (auto simp: in_set_conv_decomp)
  from assms have p: "p = Some a" by simp
  from assms split have "chain h p (((a, v) # ns1) @ (a, u) # ns2)" by simp
  then have "chain h (Some a) ((a, u) # ns2)" by (rule chain_suffix)
  moreover from assms p have "chain h (Some a) ((a, v) # ns)" by simp
  ultimately have "(a, v) # ns = (a, u) # ns2" by (rule chain_unique [symmetric])
  with split show False by simp
qed

lemma chain_update_other:
  "a \<notin> fst ` set ns \<Longrightarrow> chain (h[a := x]) p ns = chain h p ns"
proof (induction ns arbitrary: p)
  case Nil
  then show ?case by simp
next
  case (Cons y ns)
  obtain b u where y: "y = (b, u)" by (cases y)
  with Cons.prems have "b \<noteq> a" "a \<notin> fst ` set ns" by auto
  with Cons.IH y show ?case by (simp add: cell_update_other)
qed

lemma chain_distinct: "chain h p ns \<Longrightarrow> distinct (map fst ns)"
proof (induction ns arbitrary: p)
  case Nil
  then show ?case by simp
next
  case (Cons x ns)
  obtain a v where x: "x = (a, v)" by (cases x)
  from Cons.prems x obtain n where n: "cell h a = Some n" "chain h (next_node n) ns"
    by auto
  from Cons.prems x have "chain h p ((a, v) # ns)" by simp
  then have "a \<notin> fst ` set ns" by (rule chain_head_fresh)
  with Cons.IH [OF n(2)] x show ?case by simp
qed

subsection \<open>One insertion at the front\<close>

lemma PushFront_fails:
  "orc (clock w) v = Some e \<Longrightarrow> PushFront orc v l w = Raised e (l, w\<lparr>clock := Suc (clock w)\<rparr>)"
  by (simp add: PushFront_def new_Node_def)

lemma PushFront_succeeds:
  "orc (clock w) v = None \<Longrightarrow>
   PushFront orc v l w =
     Done (l\<lparr>head_next_node := Some (length (heap w)), size_field := size_field l + 1\<rparr>,
           w\<lparr>heap := heap w @ [Some \<lparr>val = v, next_node = head_next_node l\<rparr>],
             clock := Suc (clock w)\<rparr>)"
  by (simp add: PushFront_def new_Node_def)

lemma chain_push:
  assumes "chain h p ns"
  shows "chain (h @ [Some \<lparr>val = v, next_node = p\<rparr>]) (Some (length h)) ((length h, v) # ns)"
  using chain_append [OF assms, of "[Some \<lparr>val = v, next_node = p\<rparr>]"]
  by (simp add: cell_append_new)

lemma chain_fresh: "chain h p ns \<Longrightarrow> length h \<notin> fst ` set ns"
  using chain_bound [of h p ns "length h"] by auto

subsection \<open>Walking a chain\<close>

lemma end_walk_chain:
  "chain h p ns \<Longrightarrow> next_of l h it = Some p \<Longrightarrow>
   \<exists>it'. end_walk l h it = Some (Done it') \<and> next_of l h it' = Some None"
proof (induction ns arbitrary: p it)
  case Nil
  then show ?case by (subst end_walk.simps) simp
next
  case (Cons x ns)
  obtain a v where x: "x = (a, v)" by (cases x)
  from Cons.prems(1) x obtain n where n: "p = Some a" "cell h a = Some n"
    "chain h (next_node n) ns"
    by auto
  from n(2) have "next_of l h (At (Some a)) = Some (next_node n)"
    by (simp add: next_of_def)
  from Cons.IH [OF n(3) this] obtain it' where
    "end_walk l h (At (Some a)) = Some (Done it')" "next_of l h it' = Some None"
    by blast
  moreover from Cons.prems(2) n(1) have "end_walk l h it = end_walk l h (At (Some a))"
    by (subst end_walk.simps) simp
  ultimately show ?case by simp
qed

lemma end_mut_chain:
  assumes "chain h (head_next_node l) ns"
  shows "end_mut l h = Some (Done (At None))"
proof -
  have "next_of l h At_head = Some (head_next_node l)" by (simp add: next_of_def)
  from end_walk_chain [OF assms this] obtain it' where
    "end_walk l h At_head = Some (Done it')" "next_of l h it' = Some None"
    by blast
  then show ?thesis by (simp add: end_mut_def)
qed

lemma traverse_chain:
  "chain h p ns \<Longrightarrow> traverse l h (At p) seen = Some (Done (seen @ map snd ns))"
proof (induction ns arbitrary: p seen)
  case Nil
  then show ?case by (subst traverse.simps) (simp add: end_const_def)
next
  case (Cons x ns)
  obtain a v where x: "x = (a, v)" by (cases x)
  from Cons.prems x obtain n where n: "p = Some a" "cell h a = Some n" "val n = v"
    "chain h (next_node n) ns"
    by auto
  have "traverse l h (At p) seen = traverse l h (At (next_node n)) (seen @ [v])"
    using n by (subst traverse.simps) (simp add: end_const_def value_of_def next_of_def)
  with Cons.IH [OF n(4), of "seen @ [v]"] x show ?case by simp
qed

lemma elements_wf: "wf_list w l ns \<Longrightarrow> elements l (heap w) = Some (Done (map snd ns))"
  using traverse_chain [of "heap w" "head_next_node l" ns l "[]"]
  by (simp add: elements_def begin_it_def wf_list_def)

section \<open>Front insertion, swap and the end iterators\<close>

text \<open>
  C5. \<^verbatim>\<open>PushFront(v)\<close> on a well-formed list: when the node is created, the size grows
  by exactly one, the first element is \<open>v\<close>, and the former nodes follow it unchanged
  and in the same order (the new node has a fresh address); when the allocation or the
  copy of the element fails, the exception propagates and the list object and the store
  are as before the call.
\<close>

theorem PushFront_all_or_nothing:
  assumes "wf_list w l ns"
  shows "case orc (clock w) v of
           None \<Rightarrow>
             (\<exists>a l' w'. PushFront orc v l w = Done (l', w') \<and>
                GetSize l' = GetSize l + 1 \<and>
                value_of (heap w') (begin_it l') = Some v \<and>
                elements l' (heap w') = Some (Done (v # map snd ns)) \<and>
                wf_list w' l' ((a, v) # ns) \<and> a \<notin> fst ` set ns)
         | Some e \<Rightarrow>
             (\<exists>w'. PushFront orc v l w = Raised e (l, w') \<and> heap w' = heap w \<and>
                wf_list w' l ns)"
proof (cases "orc (clock w) v")
  case None
  let ?a = "length (heap w)"
  let ?l = "l\<lparr>head_next_node := Some ?a, size_field := size_field l + 1\<rparr>"
  let ?w = "w\<lparr>heap := heap w @ [Some \<lparr>val = v, next_node = head_next_node l\<rparr>],
               clock := Suc (clock w)\<rparr>"
  from assms have ch: "chain (heap w) (head_next_node l) ns" by (simp add: wf_list_def)
  have run: "PushFront orc v l w = Done (?l, ?w)" using None by (rule PushFront_succeeds)
  have wf: "wf_list ?w ?l ((?a, v) # ns)"
    using chain_push [OF ch, of v] assms by (simp add: wf_list_def)
  have fresh: "?a \<notin> fst ` set ns" using ch by (rule chain_fresh)
  have first: "value_of (heap ?w) (begin_it ?l) = Some v"
    by (simp add: value_of_def begin_it_def cell_append_new)
  have size: "GetSize ?l = GetSize l + 1" by (simp add: GetSize_def)
  have "elements ?l (heap ?w) = Some (Done (map snd ((?a, v) # ns)))"
    using wf by (rule elements_wf)
  with run wf fresh first size None show ?thesis by auto
next
  case (Some e)
  then have "PushFront orc v l w = Raised e (l, w\<lparr>clock := Suc (clock w)\<rparr>)"
    by (rule PushFront_fails)
  with assms Some show ?thesis by (simp add: wf_list_def)
qed

theorem PushFront_all_or_nothing_witness:
  "wf_list \<lparr>heap = [Some \<lparr>val = 5::nat, next_node = None\<rparr>], clock = 0\<rparr>
     \<lparr>head_next_node = Some 0, size_field = 1\<rparr> [(0, 5)] \<and>
   PushFront (\<lambda>k v. None) 7 \<lparr>head_next_node = Some 0, size_field = 1\<rparr>
     \<lparr>heap = [Some \<lparr>val = 5::nat, next_node = None\<rparr>], clock = 0\<rparr> =
     Done (\<lparr>head_next_node = Some 1, size_field = 2\<rparr>,
           \<lparr>heap = [Some \<lparr>val = 5, next_node = None\<rparr>, Some \<lparr>val = 7, next_node = Some 0\<rparr>],
            clock = 1\<rparr>) \<and>
   (\<exists>w'. PushFront (\<lambda>k v. Some Std_exception) 7 \<lparr>head_next_node = Some 0, size_field = 1\<rparr>
           \<lparr>heap = [Some \<lparr>val = 5::nat, next_node = None\<rparr>], clock = 0\<rparr> =
         Raised Std_exception (\<lparr>head_next_node = Some 0, size_field = 1\<rparr>, w') \<and>
         heap w' = [Some \<lparr>val = 5, next_node = None\<rparr>])"
proof -
  let ?w = "\<lparr>heap = [Some \<lparr>val = 5::nat, next_node = None\<rparr>], clock = 0\<rparr>"
  let ?l = "\<lparr>head_next_node = Some 0, size_field = 1\<rparr>"
  have wf: "wf_list ?w ?l [(0, 5)]" by (simp add: wf_list_def cell_def)
  have ok: "PushFront (\<lambda>k v. None) 7 ?l ?w =
     Done (\<lparr>head_next_node = Some 1, size_field = 2\<rparr>,
           \<lparr>heap = [Some \<lparr>val = 5, next_node = None\<rparr>, Some \<lparr>val = 7, next_node = Some 0\<rparr>],
            clock = 1\<rparr>)"
    by (simp add: PushFront_def new_Node_def)
  from PushFront_all_or_nothing [OF wf, of "\<lambda>k v. Some Std_exception" 7]
  have "\<exists>w'. PushFront (\<lambda>k v. Some Std_exception) 7 ?l ?w = Raised Std_exception (?l, w') \<and>
         heap w' = [Some \<lparr>val = 5, next_node = None\<rparr>]"
    by auto
  with wf ok show ?thesis by simp
qed

text \<open>
  C6. \<^verbatim>\<open>A.swap(B)\<close> exchanges the head links and the size counters of the two lists and
  leaves the store as it is: no node is allocated, released, moved or copied. The
  iterator that was \<^verbatim>\<open>A.begin()\<close> is \<^verbatim>\<open>B.begin()\<close> afterwards, and the sizes are
  exchanged.
\<close>

theorem swap_exchanges_head_and_size:
  "case swap A B w of
     (A', B', w') \<Rightarrow>
        head_next_node A' = head_next_node B \<and> size_field A' = size_field B \<and>
        head_next_node B' = head_next_node A \<and> size_field B' = size_field A \<and>
        w' = w \<and>
        begin_it B' = begin_it A \<and> begin_it A' = begin_it B \<and>
        GetSize A' = GetSize B \<and> GetSize B' = GetSize A"
  by (simp add: swap_def begin_it_def GetSize_def)

text \<open>
  C9. On a well-formed list the mutable \<^verbatim>\<open>end()\<close>, which walks from the sentinel to
  the end of the chain, returns the iterator that the read-only \<^verbatim>\<open>end()\<close> and
  \<^verbatim>\<open>cend()\<close> make from the null pointer; on an empty list \<^verbatim>\<open>begin()\<close> equals
  \<^verbatim>\<open>end()\<close> in the mutable and in the read-only variants.
\<close>

theorem end_mutable_equals_end_const:
  assumes "wf_list w l ns"
  shows "end_mut l (heap w) = Some (Done (end_const l)) \<and>
         end_mut l (heap w) = Some (Done (cend l)) \<and>
         (IsEmpty l \<longrightarrow>
            end_mut l (heap w) = Some (Done (begin_it l)) \<and>
            begin_it l = end_const l \<and> cbegin l = cend l)"
  using assms end_mut_chain [of "heap w" l ns]
  by (simp add: wf_list_def end_const_def cend_def IsEmpty_def begin_it_def cbegin_def)

theorem end_mutable_equals_end_const_witness:
  "wf_list \<lparr>heap = [Some \<lparr>val = 5::nat, next_node = None\<rparr>], clock = 0\<rparr>
     \<lparr>head_next_node = Some 0, size_field = 1\<rparr> [(0, 5)] \<and>
   end_mut \<lparr>head_next_node = Some 0, size_field = 1\<rparr> [Some \<lparr>val = 5::nat, next_node = None\<rparr>] =
     Some (Done (At None)) \<and>
   wf_list \<lparr>heap = [Some \<lparr>val = 5::nat, next_node = None\<rparr>], clock = 0\<rparr>
     \<lparr>head_next_node = None, size_field = 0\<rparr> [] \<and>
   IsEmpty \<lparr>head_next_node = None, size_field = 0\<rparr> \<and>
   end_mut \<lparr>head_next_node = None, size_field = 0\<rparr> [Some \<lparr>val = 5::nat, next_node = None\<rparr>] =
     Some (Done (begin_it \<lparr>head_next_node = None, size_field = 0\<rparr>))"
proof -
  let ?w = "\<lparr>heap = [Some \<lparr>val = 5::nat, next_node = None\<rparr>], clock = 0\<rparr>"
  have wf1: "wf_list ?w \<lparr>head_next_node = Some 0, size_field = 1\<rparr> [(0, 5)]"
    by (simp add: wf_list_def cell_def)
  have wf0: "wf_list ?w \<lparr>head_next_node = None, size_field = 0\<rparr> []"
    by (simp add: wf_list_def)
  have e: "IsEmpty \<lparr>head_next_node = None, size_field = 0\<rparr>" by (simp add: IsEmpty_def)
  from end_mutable_equals_end_const [OF wf1] end_mutable_equals_end_const [OF wf0] wf1 wf0 e
  show ?thesis by (simp add: end_const_def)
qed

section \<open>Clearing a chain\<close>

declare Clear.simps [simp del]

lemma length_release: "length (release as h) = length h"
  by (induction as arbitrary: h) simp_all

lemma cell_release: "cell (release as h) a = (if a \<in> set as then None else cell h a)"
proof (induction as arbitrary: h a)
  case Nil
  then show ?case by simp
next
  case (Cons b as)
  show ?case
  proof (cases "a = b")
    case True
    then show ?thesis by (simp add: Cons.IH cell_update_same)
  next
    case False
    then show ?thesis by (simp add: Cons.IH cell_update_other)
  qed
qed

lemma chain_cong_cells:
  "chain h p ns \<Longrightarrow> (\<And>a. a \<in> fst ` set ns \<Longrightarrow> cell h' a = cell h a) \<Longrightarrow> chain h' p ns"
proof (induction ns arbitrary: p)
  case Nil
  then show ?case by simp
next
  case (Cons x ns)
  obtain a v where x: "x = (a, v)" by (cases x)
  from Cons.prems(1) x obtain n where n: "p = Some a" "cell h a = Some n" "val n = v"
    "chain h (next_node n) ns"
    by auto
  from Cons.prems(2) [of a] x n(2) have "cell h' a = Some n" by simp
  moreover have "chain h' (next_node n) ns"
    using n(4) Cons.prems(2) x by (intro Cons.IH) auto
  ultimately show ?case using x n by simp
qed

lemma chain_release:
  "chain h p ns \<Longrightarrow> set as \<inter> fst ` set ns = {} \<Longrightarrow> chain (release as h) p ns"
  by (erule chain_cong_cells) (auto simp: cell_release)

lemma Clear_chain:
  "chain (heap w) (head_next_node l) ns \<Longrightarrow>
   Clear l w =
     Done (l\<lparr>head_next_node := None, size_field := size_field l - of_nat (length ns)\<rparr>,
           w\<lparr>heap := release (map fst ns) (heap w)\<rparr>)"
proof (induction ns arbitrary: l w)
  case Nil
  then show ?case by (subst Clear.simps) simp
next
  case (Cons x ns)
  obtain a v where x: "x = (a, v)" by (cases x)
  from Cons.prems x obtain n where n: "head_next_node l = Some a" "cell (heap w) a = Some n"
    "chain (heap w) (next_node n) ns"
    by auto
  let ?l = "l\<lparr>head_next_node := next_node n, size_field := size_field l - 1\<rparr>"
  from Cons.prems x have "chain (heap w) (head_next_node l) ((a, v) # ns)" by simp
  then have "a \<notin> fst ` set ns" by (rule chain_head_fresh)
  with n(3) have "chain (heap (delete_Node a w)) (head_next_node ?l) ns"
    by (simp add: delete_Node_def chain_update_other)
  from Cons.IH [OF this] have "Clear ?l (delete_Node a w) =
     Done (l\<lparr>head_next_node := None, size_field := size_field l - of_nat (length (x # ns))\<rparr>,
           w\<lparr>heap := release (map fst (x # ns)) (heap w)\<rparr>)"
    using x by (simp add: delete_Node_def algebra_simps)
  moreover have "Clear l w = Clear ?l (delete_Node a w)"
    using n by (subst Clear.simps) simp
  ultimately show ?case by simp
qed

lemma Clear_wf:
  assumes "wf_list w l ns"
  shows "Clear l w = Done (SingleLinkedList_default, w\<lparr>heap := release (map fst ns) (heap w)\<rparr>)"
proof -
  from assms have "chain (heap w) (head_next_node l) ns" "size_field l = of_nat (length ns)"
    by (simp_all add: wf_list_def)
  with Clear_chain [OF this(1)] show ?thesis by (simp add: SingleLinkedList_default_def)
qed

section \<open>Pushing a sequence of values\<close>

lemma first_fault_append:
  "first_fault orc k (xs @ ys) =
     (case first_fault orc k xs of
        Some e \<Rightarrow> Some e
      | None \<Rightarrow> first_fault orc (k + length xs) ys)"
  by (induction xs arbitrary: k) (simp_all split: option.splits)

lemma push_all_grows:
  assumes "chain (heap w) (head_next_node l) ns0"
  shows "\<exists>l' w' ms ext.
           (push_all orc vs l w = Done (l', w') \<and> map snd ms = rev vs \<and>
              clock w' = clock w + length vs \<and> first_fault orc (clock w) vs = None \<or>
            (\<exists>e. push_all orc vs l w = Raised e (l', w') \<and>
                 first_fault orc (clock w) vs = Some e) \<and> length ms < length vs) \<and>
           chain (heap w') (head_next_node l') (ms @ ns0) \<and>
           (\<forall>a \<in> fst ` set ms. length (heap w) \<le> a) \<and>
           size_field l' = size_field l + of_nat (length ms) \<and>
           heap w' = heap w @ ext \<and> length ext = length ms"
  using assms
proof (induction vs arbitrary: l w ns0)
  case Nil
  show ?case
    by (rule exI [of _ l], rule exI [of _ w], rule exI [of _ "[]"], rule exI [of _ "[]"])
       (use Nil in simp)
next
  case (Cons v vs)
  show ?case
  proof (cases "orc (clock w) v")
    case (Some e)
    then have "push_all orc (v # vs) l w = Raised e (l, w\<lparr>clock := Suc (clock w)\<rparr>)"
      by (simp add: PushFront_fails)
    moreover from Some have "first_fault orc (clock w) (v # vs) = Some e" by simp
    ultimately show ?thesis
      by (intro exI [of _ l] exI [of _ "w\<lparr>clock := Suc (clock w)\<rparr>"] exI [of _ "[]"])
         (use Cons.prems in simp)
  next
    case None
    let ?a = "length (heap w)"
    let ?l = "l\<lparr>head_next_node := Some ?a, size_field := size_field l + 1\<rparr>"
    let ?w = "w\<lparr>heap := heap w @ [Some \<lparr>val = v, next_node = head_next_node l\<rparr>],
                 clock := Suc (clock w)\<rparr>"
    from None have step: "push_all orc (v # vs) l w = push_all orc vs ?l ?w"
      by (simp add: PushFront_succeeds)
    from None have ff: "first_fault orc (clock w) (v # vs) = first_fault orc (clock ?w) vs"
      by simp
    have "chain (heap ?w) (head_next_node ?l) ((?a, v) # ns0)"
      using chain_push [OF Cons.prems, of v] by simp
    from Cons.IH [OF this] obtain l' w' ms ext where r:
      "push_all orc vs ?l ?w = Done (l', w') \<and> map snd ms = rev vs \<and>
         clock w' = clock ?w + length vs \<and> first_fault orc (clock ?w) vs = None \<or>
       (\<exists>e. push_all orc vs ?l ?w = Raised e (l', w') \<and>
            first_fault orc (clock ?w) vs = Some e) \<and> length ms < length vs"
      "chain (heap w') (head_next_node l') (ms @ (?a, v) # ns0)"
      "\<forall>a \<in> fst ` set ms. length (heap ?w) \<le> a"
      "size_field l' = size_field ?l + of_nat (length ms)"
      "heap w' = heap ?w @ ext" "length ext = length ms"
      by blast
    let ?ms = "ms @ [(?a, v)]"
    have "(push_all orc (v # vs) l w = Done (l', w') \<and> map snd ?ms = rev (v # vs) \<and>
              clock w' = clock w + length (v # vs) \<and>
              first_fault orc (clock w) (v # vs) = None \<or>
            (\<exists>e. push_all orc (v # vs) l w = Raised e (l', w') \<and>
                 first_fault orc (clock w) (v # vs) = Some e) \<and>
              length ?ms < length (v # vs))"
      using r(1) unfolding step ff by auto
    moreover have "chain (heap w') (head_next_node l') (?ms @ ns0)" using r(2) by simp
    moreover have "\<forall>a \<in> fst ` set ?ms. length (heap w) \<le> a" using r(3) by auto
    moreover have "size_field l' = size_field l + of_nat (length ?ms)" using r(4) by simp
    moreover have "heap w' = heap w @ ([Some \<lparr>val = v, next_node = head_next_node l\<rparr>] @ ext)"
      using r(5) by simp
    moreover have "length ([Some \<lparr>val = v, next_node = head_next_node l\<rparr>] @ ext) = length ?ms"
      using r(6) by simp
    ultimately show ?thesis by blast
  qed
qed

section \<open>The loops of the copy constructor on well-formed chains\<close>

lemma copy_loop1_chain:
  "chain (heap w) p ns \<Longrightarrow>
   copy_loop1 orc other (At p) tmp w = Some (push_all orc (map snd ns) tmp w)"
proof (induction ns arbitrary: p tmp w)
  case Nil
  then show ?case by (subst copy_loop1.simps) (simp add: end_const_def)
next
  case (Cons x ns)
  obtain a v where x: "x = (a, v)" by (cases x)
  from Cons.prems x obtain n where n: "p = Some a" "cell (heap w) a = Some n" "val n = v"
    "chain (heap w) (next_node n) ns"
    by auto
  show ?case
  proof (cases "orc (clock w) v")
    case (Some e)
    with n x show ?thesis
      by (subst copy_loop1.simps) (simp add: end_const_def value_of_def PushFront_fails)
  next
    case None
    let ?l = "tmp\<lparr>head_next_node := Some (length (heap w)), size_field := size_field tmp + 1\<rparr>"
    let ?w = "w\<lparr>heap := heap w @ [Some \<lparr>val = v, next_node = head_next_node tmp\<rparr>],
                 clock := Suc (clock w)\<rparr>"
    from n(2) have c: "cell (heap ?w) a = Some n"
      by (simp add: cell_append_old cell_Some_less)
    have "chain (heap ?w) (next_node n) ns" using chain_append [OF n(4)] by simp
    from Cons.IH [OF this] have "copy_loop1 orc other (At (next_node n)) ?l ?w =
      Some (push_all orc (map snd ns) ?l ?w)" .
    moreover have "copy_loop1 orc other (At p) tmp w = copy_loop1 orc other (At (next_node n)) ?l ?w"
      using None n c
      by (subst copy_loop1.simps)
         (simp add: end_const_def value_of_def next_of_def PushFront_succeeds)
    ultimately show ?thesis using None x by (simp add: PushFront_succeeds)
  qed
qed

lemma copy_loop2_chain:
  "chain (heap w) (head_next_node tmp) ts \<Longrightarrow> chain (heap w) p ns \<Longrightarrow>
   copy_loop2 orc tmp (At p) this w = Some (push_all orc (map snd ns) this w)"
proof (induction ns arbitrary: p this w)
  case Nil
  then show ?case by (subst copy_loop2.simps) (simp add: end_mut_chain)
next
  case (Cons x ns)
  obtain a v where x: "x = (a, v)" by (cases x)
  from Cons.prems(2) x obtain n where n: "p = Some a" "cell (heap w) a = Some n" "val n = v"
    "chain (heap w) (next_node n) ns"
    by auto
  note e = end_mut_chain [OF Cons.prems(1)]
  show ?case
  proof (cases "orc (clock w) v")
    case (Some e')
    with n x e show ?thesis
      by (subst copy_loop2.simps) (simp add: value_of_def PushFront_fails)
  next
    case None
    let ?l = "this\<lparr>head_next_node := Some (length (heap w)), size_field := size_field this + 1\<rparr>"
    let ?w = "w\<lparr>heap := heap w @ [Some \<lparr>val = v, next_node = head_next_node this\<rparr>],
                 clock := Suc (clock w)\<rparr>"
    from n(2) have c: "cell (heap ?w) a = Some n"
      by (simp add: cell_append_old cell_Some_less)
    have "chain (heap ?w) (head_next_node tmp) ts" using chain_append [OF Cons.prems(1)] by simp
    moreover have "chain (heap ?w) (next_node n) ns" using chain_append [OF n(4)] by simp
    ultimately have "copy_loop2 orc tmp (At (next_node n)) ?l ?w =
      Some (push_all orc (map snd ns) ?l ?w)" by (rule Cons.IH)
    moreover have "copy_loop2 orc tmp (At p) this w = copy_loop2 orc tmp (At (next_node n)) ?l ?w"
      using None n c e
      by (subst copy_loop2.simps) (simp add: value_of_def next_of_def PushFront_succeeds)
    ultimately show ?thesis using None x by (simp add: PushFront_succeeds)
  qed
qed

section \<open>Copy construction\<close>

lemma preserved_append: "heap w' = heap w @ ext \<Longrightarrow> preserved w w'"
  by (simp add: preserved_def)

lemma take_release: "\<forall>a \<in> set as. n \<le> a \<Longrightarrow> take n (release as h) = take n h"
  by (induction as arbitrary: h) simp_all

lemma preserved_release:
  "preserved w w' \<Longrightarrow> \<forall>a \<in> set as. length (heap w) \<le> a \<Longrightarrow>
   preserved w (w'\<lparr>heap := release as (heap w')\<rparr>)"
  by (simp add: preserved_def take_release)

lemma preserved_cell:
  assumes "preserved w w'" "a < length (heap w)"
  shows "cell (heap w') a = cell (heap w) a"
proof -
  from assms(1) have t: "take (length (heap w)) (heap w') = heap w" by (simp add: preserved_def)
  then have "length (heap w) \<le> length (heap w')"
    by (metis length_take min.cobounded1 min_def nat_le_linear take_all)
  moreover from t assms(2) have "heap w' ! a = heap w ! a" by (metis nth_take)
  ultimately show ?thesis using assms(2) by (simp add: cell_def)
qed

lemma preserved_chain:
  assumes "preserved w w'" "chain (heap w) p ns"
  shows "chain (heap w') p ns"
  using assms(2)
proof (rule chain_cong_cells)
  fix a assume "a \<in> fst ` set ns"
  with assms(2) have "a < length (heap w)" by (rule chain_bound)
  with assms(1) show "cell (heap w') a = cell (heap w) a" by (rule preserved_cell)
qed

lemma cell_beyond: "length h \<le> a \<Longrightarrow> cell h a = None"
  by (simp add: cell_def)

lemma chain_live: "chain h p ns \<Longrightarrow> a \<in> fst ` set ns \<Longrightarrow> cell h a \<noteq> None"
proof (induction ns arbitrary: p)
  case Nil
  then show ?case by simp
next
  case (Cons x ns)
  obtain b v where x: "x = (b, v)" by (cases x)
  from Cons.prems(1) x obtain n where n: "cell h b = Some n" "chain h (next_node n) ns"
    by auto
  show ?case
  proof (cases "a = b")
    case True
    with n(1) show ?thesis by simp
  next
    case False
    with Cons.prems(2) x have "a \<in> fst ` set ns" by auto
    with n(2) show ?thesis by (rule Cons.IH)
  qed
qed

text \<open>The nodes pushed onto a list occupy exactly the slots that the store has got.\<close>

lemma pushed_addresses:
  assumes "chain (h @ ext) p ms" and "length ext = length ms"
    and "\<forall>a \<in> fst ` set ms. length h \<le> a"
  shows "fst ` set ms = {length h..<length (h @ ext)}"
proof (rule card_subset_eq)
  show "finite {length h..<length (h @ ext)}" by simp
  show "fst ` set ms \<subseteq> {length h..<length (h @ ext)}"
  proof
    fix a assume a: "a \<in> fst ` set ms"
    with assms(1) have "a < length (h @ ext)" by (rule chain_bound)
    moreover from a assms(3) have "length h \<le> a" by blast
    ultimately show "a \<in> {length h..<length (h @ ext)}" by simp
  qed
  from assms(1) have "distinct (map fst ms)" by (rule chain_distinct)
  then have "card (fst ` set ms) = length ms" by (metis distinct_card length_map set_map)
  with assms(2) show "card (fst ` set ms) = card {length h..<length (h @ ext)}" by simp
qed

lemma copy_cases:
  assumes ch: "chain (heap w) (head_next_node S) ns"
  obtains (returns) L w' ms where
      "SingleLinkedList_copy orc S w = Some (Done (L, w'))"
      "chain (heap w') (head_next_node L) ms" "map snd ms = map snd ns"
      "size_field L = of_nat (length ns)"
      "\<forall>a \<in> fst ` set ms. length (heap w) \<le> a"
      "preserved w w'"
      "first_fault orc (clock w) (map snd ns @ rev (map snd ns)) = None"
      "\<forall>a. length (heap w) \<le> a \<longrightarrow> (cell (heap w') a \<noteq> None) = (a \<in> fst ` set ms)"
    | (throws) e L w' ms where
      "SingleLinkedList_copy orc S w = Some (Raised e (L, w'))"
      "chain (heap w') (head_next_node L) ms"
      "size_field L = of_nat (length ms)"
      "e = Std_exception \<Longrightarrow> L = SingleLinkedList_default"
      "preserved w w'"
      "first_fault orc (clock w) (map snd ns @ rev (map snd ns)) = Some e"
      "\<forall>a. length (heap w) \<le> a \<longrightarrow> (cell (heap w') a \<noteq> None) = (a \<in> fst ` set ms)"
proof -
  let ?vs = "map snd ns"
  let ?d = "\<lparr>head_next_node = None, size_field = 0\<rparr>"
  have l1: "copy_loop1 orc S (begin_it S) ?d w = Some (push_all orc ?vs ?d w)"
    using copy_loop1_chain [OF ch] by (simp add: begin_it_def)
  have "chain (heap w) (head_next_node ?d) []" by simp
  from push_all_grows [OF this, of orc ?vs] obtain t w1 ms1 ext1 where
    r1: "push_all orc ?vs ?d w = Done (t, w1) \<and> map snd ms1 = rev ?vs \<and>
           clock w1 = clock w + length ?vs \<and> first_fault orc (clock w) ?vs = None \<or>
         (\<exists>e. push_all orc ?vs ?d w = Raised e (t, w1) \<and>
              first_fault orc (clock w) ?vs = Some e) \<and> length ms1 < length ?vs"
    and c1: "chain (heap w1) (head_next_node t) ms1"
    and a1: "\<forall>a \<in> fst ` set ms1. length (heap w) \<le> a"
    and s1: "size_field t = of_nat (length ms1)"
    and h1: "heap w1 = heap w @ ext1"
    and e1: "length ext1 = length ms1"
    by auto
  have ad1: "fst ` set ms1 = {length (heap w)..<length (heap w1)}"
    using pushed_addresses [of "heap w" ext1 "head_next_node t" ms1] c1 a1 e1 h1 by simp
  have clr1: "Clear t w2 = Done (SingleLinkedList_default, w2\<lparr>heap := release (map fst ms1) (heap w2)\<rparr>)"
    if "heap w2 = heap w1 @ ext" for w2 :: "'a world" and ext
  proof -
    from chain_append [OF c1, of ext] that s1 have "wf_list w2 t ms1" by (simp add: wf_list_def)
    then show ?thesis by (rule Clear_wf)
  qed
  have p1: "preserved w w1" using h1 by (rule preserved_append)
  from r1 show thesis
  proof (elim disjE conjE exE)
    fix e assume r: "push_all orc ?vs ?d w = Raised e (t, w1)"
      and nc: "first_fault orc (clock w) ?vs = Some e"
    let ?w2 = "w1\<lparr>heap := release (map fst ms1) (heap w1)\<rparr>"
    have c: "Clear t w1 = Done (SingleLinkedList_default, ?w2)" using clr1 [of w1 "[]"] by simp
    have c': "Clear ?d ?w2 = Done (?d, ?w2)"
      using Clear_chain [of ?w2 ?d "[]"] by simp
    have run: "SingleLinkedList_copy orc S w = Some (Raised e (?d, ?w2))"
      using l1 r c c'
      by (simp add: SingleLinkedList_copy_def SingleLinkedList_default_def copy_unwind_def Let_def)
    have p: "preserved w ?w2" using p1 a1 by (intro preserved_release) auto
    have n: "first_fault orc (clock w) (?vs @ rev ?vs) = Some e"
      using nc by (simp add: first_fault_append)
    have gone: "\<forall>a. length (heap w) \<le> a \<longrightarrow> cell (heap ?w2) a = None"
      using ad1 by (auto simp: cell_release cell_beyond)
    show thesis
      by (rule throws [of e ?d ?w2 "[]"])
         (use run p n gone in \<open>simp_all add: SingleLinkedList_default_def\<close>)
  next
    assume d: "push_all orc ?vs ?d w = Done (t, w1)" and m1: "map snd ms1 = rev ?vs"
      and k1: "clock w1 = clock w + length ?vs"
      and f1: "first_fault orc (clock w) ?vs = None"
    have l2: "copy_loop2 orc t (begin_it t) ?d w1 = Some (push_all orc (map snd ms1) ?d w1)"
      using copy_loop2_chain [OF c1 c1] by (simp add: begin_it_def)
    have "chain (heap w1) (head_next_node ?d) []" by simp
    from push_all_grows [OF this, of orc "map snd ms1"] obtain th w2 ms2 ext2 where
      r2: "push_all orc (map snd ms1) ?d w1 = Done (th, w2) \<and> map snd ms2 = rev (map snd ms1) \<and>
             clock w2 = clock w1 + length (map snd ms1) \<and>
             first_fault orc (clock w1) (map snd ms1) = None \<or>
           (\<exists>e. push_all orc (map snd ms1) ?d w1 = Raised e (th, w2) \<and>
                first_fault orc (clock w1) (map snd ms1) = Some e) \<and>
             length ms2 < length (map snd ms1)"
      and c2: "chain (heap w2) (head_next_node th) ms2"
      and a2: "\<forall>a \<in> fst ` set ms2. length (heap w1) \<le> a"
      and s2: "size_field th = of_nat (length ms2)"
      and h2: "heap w2 = heap w1 @ ext2"
      and e2: "length ext2 = length ms2"
      by auto
    have ad2: "fst ` set ms2 = {length (heap w1)..<length (heap w2)}"
      using pushed_addresses [of "heap w1" ext2 "head_next_node th" ms2] c2 a2 e2 h2 by simp
    have le1: "length (heap w) \<le> length (heap w1)" using h1 by simp
    let ?w3 = "w2\<lparr>heap := release (map fst ms1) (heap w2)\<rparr>"
    have clr: "Clear t w2 = Done (SingleLinkedList_default, ?w3)" using h2 by (rule clr1)
    have disj: "set (map fst ms1) \<inter> fst ` set ms2 = {}"
      using chain_bound [OF c1] a2 by fastforce
    have c3: "chain (heap ?w3) (head_next_node th) ms2"
      using chain_release [OF c2 disj] by simp
    have a2': "\<forall>a \<in> fst ` set ms2. length (heap w) \<le> a" using a2 h1 by auto
    have "preserved w w2" using h1 h2 by (simp add: preserved_def)
    then have p3: "preserved w ?w3" using a1 by (intro preserved_release) auto
    have len: "length ms1 = length ns" using m1 by (metis length_map length_rev)
    have slots3: "\<forall>a. length (heap w) \<le> a \<longrightarrow>
        (cell (heap ?w3) a \<noteq> None) = (a \<in> fst ` set ms2)"
    proof (intro allI impI)
      fix a assume "length (heap w) \<le> a"
      consider "a < length (heap w1)" | "length (heap w1) \<le> a" "a < length (heap w2)"
        | "length (heap w2) \<le> a"
        by linarith
      then show "(cell (heap ?w3) a \<noteq> None) = (a \<in> fst ` set ms2)"
      proof cases
        case 1
        with \<open>length (heap w) \<le> a\<close> ad1 have "a \<in> fst ` set ms1" by simp
        moreover from 1 ad2 have "a \<notin> fst ` set ms2" by simp
        ultimately show ?thesis by (simp add: cell_release)
      next
        case 2
        with ad2 have in2: "a \<in> fst ` set ms2" by simp
        with c2 have "cell (heap w2) a \<noteq> None" by (rule chain_live)
        moreover from 2 ad1 have "a \<notin> fst ` set ms1" by simp
        ultimately show ?thesis using in2 by (simp add: cell_release)
      next
        case 3
        with ad2 have "a \<notin> fst ` set ms2" by simp
        with 3 show ?thesis by (simp add: cell_release cell_beyond)
      qed
    qed
    from r2 show thesis
    proof (elim disjE conjE exE)
      assume d2: "push_all orc (map snd ms1) ?d w1 = Done (th, w2)"
        and m2: "map snd ms2 = rev (map snd ms1)"
        and f2: "first_fault orc (clock w1) (map snd ms1) = None"
      have run: "SingleLinkedList_copy orc S w = Some (Done (th, ?w3))"
        using l1 d l2 d2 clr
        by (simp add: SingleLinkedList_copy_def SingleLinkedList_default_def Let_def)
      from m2 m1 have vals: "map snd ms2 = map snd ns" by simp
      then have "length ms2 = length ns" by (metis length_map)
      with s2 have sz: "size_field th = of_nat (length ns)" by simp
      have "first_fault orc (clock w) (?vs @ rev ?vs) = None"
        using f1 f2 k1 m1 by (simp add: first_fault_append)
      with run c3 vals sz a2' p3 show thesis using slots3 by (rule returns)
    next
      fix e assume r: "push_all orc (map snd ms1) ?d w1 = Raised e (th, w2)"
        and nc: "first_fault orc (clock w1) (map snd ms1) = Some e"
      have n: "first_fault orc (clock w) (?vs @ rev ?vs) = Some e"
        using f1 nc k1 m1 by (simp add: first_fault_append)
      show thesis
      proof (cases "e = Std_exception")
        case True
        let ?w4 = "?w3\<lparr>heap := release (map fst ms2) (heap ?w3)\<rparr>"
        from c3 s2 have "wf_list ?w3 th ms2" by (simp add: wf_list_def)
        then have c4: "Clear th ?w3 = Done (SingleLinkedList_default, ?w4)" by (rule Clear_wf)
        have run: "SingleLinkedList_copy orc S w = Some (Raised e (SingleLinkedList_default, ?w4))"
          using l1 d l2 r clr c4 True
          by (simp add: SingleLinkedList_copy_def SingleLinkedList_default_def copy_unwind_def Let_def)
        have p4: "preserved w ?w4" using preserved_release [OF p3, of "map fst ms2"] a2' by simp
        have gone: "\<forall>a. length (heap w) \<le> a \<longrightarrow> cell (heap ?w4) a = None"
          using slots3 by (auto simp: cell_release)
        show thesis
          by (rule throws [of e SingleLinkedList_default ?w4 "[]"])
             (use run p4 n gone in \<open>simp_all add: SingleLinkedList_default_def\<close>)
      next
        case False
        have run: "SingleLinkedList_copy orc S w = Some (Raised e (th, ?w3))"
          using l1 d l2 r clr False
          by (simp add: SingleLinkedList_copy_def SingleLinkedList_default_def copy_unwind_def Let_def)
        show thesis
          by (rule throws [of e th ?w3 ms2]) (use run c3 s2 p3 n False slots3 in simp_all)
      qed
    qed
  qed
qed


lemma chain_value:
  "chain h p ns \<Longrightarrow> (a, v) \<in> set ns \<Longrightarrow> value_of h (At (Some a)) = Some v"
proof (induction ns arbitrary: p)
  case Nil
  then show ?case by simp
next
  case (Cons x ns)
  obtain b u where x: "x = (b, u)" by (cases x)
  from Cons.prems(1) x obtain n where n: "cell h b = Some n" "val n = u"
    "chain h (next_node n) ns"
    by auto
  from Cons.prems(1) x have "chain h p ((b, u) # ns)" by simp
  then have fresh: "b \<notin> fst ` set ns" by (rule chain_head_fresh)
  show ?case
  proof (cases "(a, v) \<in> set ns")
    case True
    with n(3) show ?thesis by (rule Cons.IH)
  next
    case False
    with Cons.prems(2) x have "a = b" "v = u" by auto
    with n show ?thesis by (simp add: value_of_def)
  qed
qed

text \<open>
  What the copy constructor does achieve on a well-formed source: it returns or throws,
  and never runs into undefined behaviour; every slot the store had keeps its content.
  When no node creation fails, the new list is well formed, holds the element sequence
  of the source in nodes of its own, the source is as it was, and of the slots the
  constructor has created exactly those of the new list are live: the temporary list is
  released. When a node creation fails, the exception propagates; if it is of a class
  derived from \<^verbatim>\<open>std::exception\<close>, the list under construction is in the
  default-constructed state, null head link and size 0, and every slot the constructor
  has created is released.
\<close>

theorem copy_construction_all_or_nothing:
  assumes "wf_list w S ns"
  shows "case first_fault orc (clock w) (map snd ns @ rev (map snd ns)) of
           None \<Rightarrow>
             (\<exists>L w' ms. SingleLinkedList_copy orc S w = Some (Done (L, w')) \<and>
                wf_list w' L ms \<and> map snd ms = map snd ns \<and>
                elements L (heap w') = Some (Done (map snd ns)) \<and>
                fst ` set ms \<inter> fst ` set ns = {} \<and> wf_list w' S ns \<and>
                preserved w w' \<and>
                (\<forall>a. length (heap w) \<le> a \<longrightarrow>
                   (cell (heap w') a \<noteq> None) = (a \<in> fst ` set ms)))
         | Some e \<Rightarrow>
             (\<exists>L w'. SingleLinkedList_copy orc S w = Some (Raised e (L, w')) \<and>
                (e = Std_exception \<longrightarrow>
                   L = SingleLinkedList_default \<and> GetSize L = 0 \<and> IsEmpty L \<and>
                   (\<forall>a. length (heap w) \<le> a \<longrightarrow> cell (heap w') a = None)) \<and>
                wf_list w' S ns \<and> preserved w w')"
proof -
  from assms have ch: "chain (heap w) (head_next_node S) ns"
    and sz: "size_field S = of_nat (length ns)"
    by (simp_all add: wf_list_def)
  from ch show ?thesis
  proof (cases rule: copy_cases [where orc = orc])
    case (returns L w' ms)
    from returns(3) have "length ms = length ns" by (metis length_map)
    with returns(2,4) have wf: "wf_list w' L ms" by (simp add: wf_list_def)
    then have "elements L (heap w') = Some (Done (map snd ms))" by (rule elements_wf)
    moreover have "fst ` set ms \<inter> fst ` set ns = {}"
      using chain_bound [OF ch] returns(5) by fastforce
    moreover have "wf_list w' S ns"
      using preserved_chain [OF returns(6) ch] sz by (simp add: wf_list_def)
    ultimately show ?thesis using returns(1,3,6,7,8) wf by auto
  next
    case (throws e L w' ms)
    have wfS: "wf_list w' S ns"
      using preserved_chain [OF throws(5) ch] sz by (simp add: wf_list_def)
    have "\<forall>a. length (heap w) \<le> a \<longrightarrow> cell (heap w') a = None" if "e = Std_exception"
    proof -
      from that throws(4) have "head_next_node L = None"
        by (simp add: SingleLinkedList_default_def)
      with throws(2) have "ms = []" by (cases ms) auto
      with throws(7) show ?thesis by simp
    qed
    with wfS throws(1,4,5,6) show ?thesis
      by (auto simp: SingleLinkedList_default_def GetSize_def IsEmpty_def)
  qed
qed

theorem copy_construction_all_or_nothing_witness:
  "wf_list \<lparr>heap = [Some \<lparr>val = 5::nat, next_node = None\<rparr>, Some \<lparr>val = 6, next_node = Some 0\<rparr>],
            clock = 0\<rparr>
     \<lparr>head_next_node = Some 1, size_field = 2\<rparr> [(1, 6), (0, 5)] \<and>
   SingleLinkedList_copy no_faults \<lparr>head_next_node = Some 1, size_field = 2\<rparr>
     \<lparr>heap = [Some \<lparr>val = 5::nat, next_node = None\<rparr>, Some \<lparr>val = 6, next_node = Some 0\<rparr>],
      clock = 0\<rparr> =
     Some (Done (\<lparr>head_next_node = Some 5, size_field = 2\<rparr>,
       \<lparr>heap = [Some \<lparr>val = 5, next_node = None\<rparr>, Some \<lparr>val = 6, next_node = Some 0\<rparr>,
                None, None,
                Some \<lparr>val = 5, next_node = None\<rparr>, Some \<lparr>val = 6, next_node = Some 4\<rparr>],
        clock = 4\<rparr>)) \<and>
   SingleLinkedList_copy (fail_at 3 Std_exception) \<lparr>head_next_node = Some 1, size_field = 2\<rparr>
     \<lparr>heap = [Some \<lparr>val = 5::nat, next_node = None\<rparr>, Some \<lparr>val = 6, next_node = Some 0\<rparr>],
      clock = 0\<rparr> =
     Some (Raised Std_exception (SingleLinkedList_default,
       \<lparr>heap = [Some \<lparr>val = 5, next_node = None\<rparr>, Some \<lparr>val = 6, next_node = Some 0\<rparr>,
                None, None, None],
        clock = 4\<rparr>))"
proof -
  let ?w = "\<lparr>heap = [Some \<lparr>val = 5::nat, next_node = None\<rparr>, Some \<lparr>val = 6, next_node = Some 0\<rparr>],
             clock = 0\<rparr>"
  let ?S = "\<lparr>head_next_node = Some 1, size_field = 2\<rparr>"
  have wf: "wf_list ?w ?S [(1, 6), (0, 5)]" by (simp add: wf_list_def cell_def)
  have ok: "SingleLinkedList_copy no_faults ?S ?w =
     Some (Done (\<lparr>head_next_node = Some 5, size_field = 2\<rparr>,
       \<lparr>heap = [Some \<lparr>val = 5, next_node = None\<rparr>, Some \<lparr>val = 6, next_node = Some 0\<rparr>,
                None, None,
                Some \<lparr>val = 5, next_node = None\<rparr>, Some \<lparr>val = 6, next_node = Some 4\<rparr>],
        clock = 4\<rparr>))"
    by code_simp
  have ff: "first_fault (fail_at 3 Std_exception) 0 [6, 5, 5, 6::nat] = Some Std_exception"
    by (simp add: fail_at_def)
  have ko: "SingleLinkedList_copy (fail_at 3 Std_exception) ?S ?w =
     Some (Raised Std_exception (SingleLinkedList_default,
       \<lparr>heap = [Some \<lparr>val = 5, next_node = None\<rparr>, Some \<lparr>val = 6, next_node = Some 0\<rparr>,
                None, None, None],
        clock = 4\<rparr>))"
  proof -
    have "SingleLinkedList_copy (fail_at 3 Std_exception) ?S ?w =
       Some (Raised Std_exception (\<lparr>head_next_node = None, size_field = 0\<rparr>,
         \<lparr>heap = [Some \<lparr>val = 5, next_node = None\<rparr>, Some \<lparr>val = 6, next_node = Some 0\<rparr>,
                  None, None, None],
          clock = 4\<rparr>))"
      by code_simp
    moreover from copy_construction_all_or_nothing [OF wf, of "fail_at 3 Std_exception"] ff
    obtain L w' where "SingleLinkedList_copy (fail_at 3 Std_exception) ?S ?w =
        Some (Raised Std_exception (L, w'))" "L = SingleLinkedList_default"
      by auto
    ultimately show ?thesis by simp
  qed
  from wf ok ko show ?thesis by simp
qed

text \<open>
  C2. Copy construction should either produce an independent list with the element
  sequence of the source or, when the copy of an element fails partway through, leave
  the list under construction in the default-constructed empty state and propagate the
  error. The constructor attempts this by \<^verbatim>\<open>catch (const std::exception &) { Clear();
  throw; }\<close>, and the handler misses every exception of another type: from a source of
  two elements, with an element type whose copy constructor throws an object that is not
  a \<^verbatim>\<open>std::exception\<close> at the fourth copy (the second insertion into the list under
  construction), the exception leaves the constructor with the list under construction
  holding the node it had got: size 1, non-null head link, the node live at address 4.
\<close>

theorem copy_construction_foreign_exception_keeps_nodes:
  "wf_list \<lparr>heap = [Some \<lparr>val = 5::nat, next_node = None\<rparr>, Some \<lparr>val = 6, next_node = Some 0\<rparr>],
            clock = 0\<rparr>
     \<lparr>head_next_node = Some 1, size_field = 2\<rparr> [(1, 6), (0, 5)] \<and>
   SingleLinkedList_copy (fail_at 3 Foreign_exception) \<lparr>head_next_node = Some 1, size_field = 2\<rparr>
     \<lparr>heap = [Some \<lparr>val = 5::nat, next_node = None\<rparr>, Some \<lparr>val = 6, next_node = Some 0\<rparr>],
      clock = 0\<rparr> =
     Some (Raised Foreign_exception (\<lparr>head_next_node = Some 4, size_field = 1\<rparr>,
       \<lparr>heap = [Some \<lparr>val = 5, next_node = None\<rparr>, Some \<lparr>val = 6, next_node = Some 0\<rparr>,
                None, None, Some \<lparr>val = 5, next_node = None\<rparr>],
        clock = 4\<rparr>)) \<and>
   \<lparr>head_next_node = Some 4, size_field = 1\<rparr> \<noteq> SingleLinkedList_default \<and>
   GetSize \<lparr>head_next_node = Some 4, size_field = 1\<rparr> = 1 \<and>
   \<not> IsEmpty \<lparr>head_next_node = Some 4, size_field = 1\<rparr> \<and>
   cell [Some \<lparr>val = 5::nat, next_node = None\<rparr>, Some \<lparr>val = 6, next_node = Some 0\<rparr>,
         None, None, Some \<lparr>val = 5, next_node = None\<rparr>] 4 =
     Some \<lparr>val = 5, next_node = None\<rparr>"
proof -
  have "wf_list \<lparr>heap = [Some \<lparr>val = 5::nat, next_node = None\<rparr>, Some \<lparr>val = 6, next_node = Some 0\<rparr>],
            clock = 0\<rparr>
     \<lparr>head_next_node = Some 1, size_field = 2\<rparr> [(1, 6), (0, 5)]"
    by (simp add: wf_list_def cell_def)
  moreover have "SingleLinkedList_copy (fail_at 3 Foreign_exception) \<lparr>head_next_node = Some 1, size_field = 2\<rparr>
     \<lparr>heap = [Some \<lparr>val = 5::nat, next_node = None\<rparr>, Some \<lparr>val = 6, next_node = Some 0\<rparr>],
      clock = 0\<rparr> =
     Some (Raised Foreign_exception (\<lparr>head_next_node = Some 4, size_field = 1\<rparr>,
       \<lparr>heap = [Some \<lparr>val = 5, next_node = None\<rparr>, Some \<lparr>val = 6, next_node = Some 0\<rparr>,
                None, None, Some \<lparr>val = 5, next_node = None\<rparr>],
        clock = 4\<rparr>))"
    by code_simp
  ultimately show ?thesis
    by (simp add: SingleLinkedList_default_def GetSize_def IsEmpty_def cell_def)
qed


section \<open>Assignment\<close>

lemma assign_cases:
  assumes S: "chain (heap w) (head_next_node S) ys" and D: "wf_list w D xs"
  obtains (returns) D' w' ms where
      "assign orc D S w = Some (Done (D', w'))"
      "wf_list w' D' ms" "map snd ms = map snd ys"
      "\<forall>a \<in> fst ` set ms. length (heap w) \<le> a"
      "first_fault orc (clock w) (map snd ys @ rev (map snd ys)) = None"
    | (throws) e w' where
      "assign orc D S w = Some (Raised e (D, w'))"
      "preserved w w'"
      "first_fault orc (clock w) (map snd ys @ rev (map snd ys)) = Some e"
  using S
proof (cases rule: copy_cases [where orc = orc])
  case (throws e L w1 ms)
  from throws(1) have "assign orc D S w = Some (Raised e (D, w1))" by (simp add: assign_def)
  with throws(5,6) show thesis by (intro that(2))
next
  case (returns L w1 ms)
  let ?D = "D\<lparr>head_next_node := head_next_node L, size_field := size_field L\<rparr>"
  let ?t = "L\<lparr>head_next_node := head_next_node D, size_field := size_field D\<rparr>"
  let ?w = "w1\<lparr>heap := release (map fst xs) (heap w1)\<rparr>"
  from D have cD: "chain (heap w) (head_next_node D) xs" by (simp add: wf_list_def)
  with returns(6) have "chain (heap w1) (head_next_node D) xs" by (rule preserved_chain)
  with D have "wf_list w1 ?t xs" by (simp add: wf_list_def)
  then have clr: "Clear ?t w1 = Done (SingleLinkedList_default, ?w)" by (rule Clear_wf)
  have run: "assign orc D S w = Some (Done (?D, ?w))"
    using returns(1) clr by (simp add: assign_def swap_def)
  have "set (map fst xs) \<inter> fst ` set ms = {}"
    using chain_bound [OF cD] returns(5) by fastforce
  with returns(2) have "chain (heap ?w) (head_next_node ?D) ms"
    using chain_release [of "heap w1" "head_next_node L" ms "map fst xs"] by simp
  moreover from returns(3) have "length ms = length ys" by (metis length_map)
  ultimately have "wf_list ?w ?D ms" using returns(4) by (simp add: wf_list_def)
  with run returns(3,5,7) show thesis by (intro that(1))
qed

text \<open>
  C1. Copy assignment \<^verbatim>\<open>D = S\<close> with well-formed lists, when one of the node creations
  of the copy fails with \<open>e\<close>: the assignment throws \<open>e\<close>, the destination object is
  as before (same head link, same size), every slot of the store that existed before
  the call has its content, so the destination has the same nodes with the same values
  in the same order, and an iterator to any of its nodes reads the same element.
\<close>

theorem assign_failure_keeps_destination:
  assumes "wf_list w S ys" and "wf_list w D xs"
    and "first_fault orc (clock w) (map snd ys @ rev (map snd ys)) = Some e"
  shows "\<exists>w'. assign orc D S w = Some (Raised e (D, w')) \<and>
           preserved w w' \<and> wf_list w' D xs \<and>
           elements D (heap w') = Some (Done (map snd xs)) \<and>
           (\<forall>(a, v) \<in> set xs. value_of (heap w') (At (Some a)) = Some v)"
proof -
  from assms(1) have S: "chain (heap w) (head_next_node S) ys" by (simp add: wf_list_def)
  from assms(2) have D: "chain (heap w) (head_next_node D) xs"
    and sz: "size_field D = of_nat (length xs)"
    by (simp_all add: wf_list_def)
  from S assms(2) show ?thesis
  proof (cases rule: assign_cases [where orc = orc])
    case (returns D' w' ms)
    with assms(3) show ?thesis by simp
  next
    case (throws e' w')
    from throws(3) assms(3) have e: "e' = e" by simp
    from throws(2) D have c: "chain (heap w') (head_next_node D) xs" by (rule preserved_chain)
    with sz have wf: "wf_list w' D xs" by (simp add: wf_list_def)
    then have "elements D (heap w') = Some (Done (map snd xs))" by (rule elements_wf)
    moreover have "\<forall>(a, v) \<in> set xs. value_of (heap w') (At (Some a)) = Some v"
      using chain_value [OF c] by auto
    ultimately show ?thesis using throws(1,2) e wf by auto
  qed
qed

theorem assign_failure_keeps_destination_witness:
  "wf_list \<lparr>heap = [Some \<lparr>val = 5::nat, next_node = None\<rparr>, Some \<lparr>val = 6, next_node = Some 0\<rparr>,
                    Some \<lparr>val = 9, next_node = None\<rparr>],
            clock = 0\<rparr>
     \<lparr>head_next_node = Some 1, size_field = 2\<rparr> [(1, 6), (0, 5)] \<and>
   wf_list \<lparr>heap = [Some \<lparr>val = 5::nat, next_node = None\<rparr>, Some \<lparr>val = 6, next_node = Some 0\<rparr>,
                    Some \<lparr>val = 9, next_node = None\<rparr>],
            clock = 0\<rparr>
     \<lparr>head_next_node = Some 2, size_field = 1\<rparr> [(2, 9)] \<and>
   first_fault (fail_at 1 Std_exception) 0 [6, 5, 5, 6::nat] = Some Std_exception \<and>
   assign (fail_at 1 Std_exception) \<lparr>head_next_node = Some 2, size_field = 1\<rparr>
     \<lparr>head_next_node = Some 1, size_field = 2\<rparr>
     \<lparr>heap = [Some \<lparr>val = 5::nat, next_node = None\<rparr>, Some \<lparr>val = 6, next_node = Some 0\<rparr>,
              Some \<lparr>val = 9, next_node = None\<rparr>],
      clock = 0\<rparr> =
     Some (Raised Std_exception (\<lparr>head_next_node = Some 2, size_field = 1\<rparr>,
       \<lparr>heap = [Some \<lparr>val = 5, next_node = None\<rparr>, Some \<lparr>val = 6, next_node = Some 0\<rparr>,
                Some \<lparr>val = 9, next_node = None\<rparr>, None],
        clock = 2\<rparr>))"
proof -
  let ?w = "\<lparr>heap = [Some \<lparr>val = 5::nat, next_node = None\<rparr>, Some \<lparr>val = 6, next_node = Some 0\<rparr>,
                    Some \<lparr>val = 9, next_node = None\<rparr>],
             clock = 0\<rparr>"
  let ?S = "\<lparr>head_next_node = Some 1, size_field = 2\<rparr>"
  let ?D = "\<lparr>head_next_node = Some 2, size_field = 1\<rparr>"
  have S: "wf_list ?w ?S [(1, 6), (0, 5)]" by (simp add: wf_list_def cell_def)
  have D: "wf_list ?w ?D [(2, 9)]" by (simp add: wf_list_def cell_def)
  have ff: "first_fault (fail_at 1 Std_exception) 0 [6, 5, 5, 6::nat] = Some Std_exception"
    by (simp add: fail_at_def)
  have run: "assign (fail_at 1 Std_exception) ?D ?S ?w =
     Some (Raised Std_exception (?D,
       \<lparr>heap = [Some \<lparr>val = 5, next_node = None\<rparr>, Some \<lparr>val = 6, next_node = Some 0\<rparr>,
                Some \<lparr>val = 9, next_node = None\<rparr>, None],
        clock = 2\<rparr>))"
    by code_simp
  from assign_failure_keeps_destination [OF S D, of "fail_at 1 Std_exception" Std_exception] ff
  have "\<exists>w'. assign (fail_at 1 Std_exception) ?D ?S ?w = Some (Raised Std_exception (?D, w'))"
    by auto
  with S D ff run show ?thesis by simp
qed




section \<open>Construction from a sequence of values\<close>

lemma init_loop_Suc:
  "init_loop orc values (Suc it) l w =
     (case PushFront orc (values ! it) l w of
        Done (l', w') \<Rightarrow> if it \<noteq> 0 then init_loop orc values it l' w' else Done (l', w')
      | Raised e s \<Rightarrow> Raised e s
      | Undefined \<Rightarrow> Undefined)"
  by (simp add: PushFront_def Let_def split: prod.splits sum.splits)

lemma init_loop_push_all:
  "it < length values \<Longrightarrow>
   init_loop orc values (Suc it) l w = push_all orc (rev (take (Suc it) values)) l w"
proof (induction it arbitrary: l w)
  case 0
  then have "take (Suc 0) values = [values ! 0]"
    by (cases "values") simp_all
  then show ?case
    unfolding init_loop_Suc by (simp split: outcome.splits)
next
  case (Suc j)
  then have t: "rev (take (Suc (Suc j)) values) = values ! Suc j # rev (take (Suc j) values)"
    by (simp add: take_Suc_conv_app_nth)
  from Suc.prems have "j < length values" by simp
  note IH = Suc.IH [OF this]
  show ?case
    unfolding t init_loop_Suc [of orc "values" "Suc j"] push_all.simps
    by (simp add: IH del: init_loop.simps split: outcome.splits)
qed

lemma SingleLinkedList_init_push_all:
  assumes "values \<noteq> []"
  shows "SingleLinkedList_init orc values w =
           push_all orc (rev values) \<lparr>head_next_node = None, size_field = 0\<rparr> w"
proof -
  from assms obtain n where n: "length values = Suc n" by (cases "values") auto
  then have "n < length values" by simp
  from init_loop_push_all [OF this] n show ?thesis
    by (simp add: SingleLinkedList_init_def del: init_loop.simps)
qed

text \<open>From a sequence with at least one value the constructor builds the list of these
  values, in their order, unless a node creation fails.\<close>

lemma SingleLinkedList_init_nonempty:
  assumes "values \<noteq> []"
  shows "case first_fault orc (clock w) (rev values) of
           None \<Rightarrow>
             (\<exists>l w' ms. SingleLinkedList_init orc values w = Done (l, w') \<and>
                wf_list w' l ms \<and> map snd ms = values \<and>
                GetSize l = of_nat (length values) \<and>
                elements l (heap w') = Some (Done values))
         | Some e \<Rightarrow> (\<exists>l w'. SingleLinkedList_init orc values w = Raised e (l, w'))"
proof -
  let ?d = "\<lparr>head_next_node = None, size_field = 0\<rparr>"
  have "chain (heap w) (head_next_node ?d) []" by simp
  from push_all_grows [OF this, of orc "rev values"] obtain l' w' ms ext where
    r: "push_all orc (rev values) ?d w = Done (l', w') \<and> map snd ms = rev (rev values) \<and>
           clock w' = clock w + length (rev values) \<and>
           first_fault orc (clock w) (rev values) = None \<or>
         (\<exists>e. push_all orc (rev values) ?d w = Raised e (l', w') \<and>
              first_fault orc (clock w) (rev values) = Some e) \<and>
           length ms < length (rev values)"
    and c: "chain (heap w') (head_next_node l') ms"
    and s: "size_field l' = of_nat (length ms)"
    by auto
  from c s have wf: "wf_list w' l' ms" by (simp add: wf_list_def)
  from r show ?thesis
  proof (elim disjE conjE exE)
    assume d: "push_all orc (rev values) ?d w = Done (l', w')"
      and m: "map snd ms = rev (rev values)"
      and f: "first_fault orc (clock w) (rev values) = None"
    from m have len: "length ms = length values" by (metis length_map rev_rev_ident)
    from wf have "elements l' (heap w') = Some (Done (map snd ms))" by (rule elements_wf)
    with d m f wf len s show ?thesis
      by (auto simp: SingleLinkedList_init_push_all [OF assms] GetSize_def)
  next
    fix e assume "push_all orc (rev values) ?d w = Raised e (l', w')"
      "first_fault orc (clock w) (rev values) = Some e"
    then show ?thesis by (auto simp: SingleLinkedList_init_push_all [OF assms])
  qed
qed

text \<open>
  C3. Constructing a list from the sequence \<open>[v1, ..., vn]\<close> should succeed for every
  \<open>n\<close>, \<open>n = 0\<close> included. On the empty sequence the loop of the constructor decrements
  the iterator \<^verbatim>\<open>values.end()\<close>, which is \<^verbatim>\<open>values.begin()\<close>, before any test and reads
  through it: the behaviour is undefined.
\<close>

theorem init_from_empty_sequence_is_undefined:
  "SingleLinkedList_init orc [] w = Undefined"
  by (simp add: SingleLinkedList_init_def)

text \<open>
  C4. When a copy fails during the construction from a sequence, the nodes built so far
  should be released before the exception leaves. The constructor has no handler: from
  the values \<open>[1, 2]\<close> with the second node creation failing, the exception leaves with
  the node of \<open>2\<close> still live in the store.
\<close>

theorem init_failure_leaves_nodes_live:
  "SingleLinkedList_init (fail_at 1 Std_exception) [1, 2::nat] \<lparr>heap = [], clock = 0\<rparr> =
     Raised Std_exception
       (\<lparr>head_next_node = Some 0, size_field = 1\<rparr>,
        \<lparr>heap = [Some \<lparr>val = 2, next_node = None\<rparr>], clock = 2\<rparr>) \<and>
   live [Some \<lparr>val = 2::nat, next_node = None\<rparr>] = 1"
  by (simp add: SingleLinkedList_init_def new_Node_def fail_at_def live_def numeral_2_eq_2)

section \<open>Equality and order of lists\<close>

lemma chain_length_le:
  assumes "chain h p ns"
  shows "length ns \<le> length h"
proof -
  from assms have "distinct (map fst ns)" by (rule chain_distinct)
  then have "length ns = card (fst ` set ns)" by (metis distinct_card length_map set_map)
  also have "\<dots> \<le> card {..<length h}"
    using chain_bound [OF assms] by (intro card_mono) auto
  finally show ?thesis by simp
qed

lemma size_eq_iff_length_eq:
  assumes "wf_list w A xs" "wf_list w B ys" "length (heap w) < 2 ^ 64"
  shows "GetSize A = GetSize B \<longleftrightarrow> length xs = length ys"
proof -
  from assms(1) have "length xs \<le> length (heap w)"
    by (auto simp: wf_list_def intro: chain_length_le)
  with assms(3) have x: "length xs < 2 ^ LENGTH(64)" by simp
  from assms(2) have "length ys \<le> length (heap w)"
    by (auto simp: wf_list_def intro: chain_length_le)
  with assms(3) have y: "length ys < 2 ^ LENGTH(64)" by simp
  have "(of_nat (length xs) :: 64 word) = of_nat (length ys) \<longleftrightarrow> length xs = length ys"
  proof
    assume "(of_nat (length xs) :: 64 word) = of_nat (length ys)"
    then have "unat (of_nat (length xs) :: 64 word) = unat (of_nat (length ys) :: 64 word)"
      by simp
    with x y show "length xs = length ys" by (simp add: unat_of_nat)
  qed simp
  with assms(1,2) show ?thesis by (simp add: wf_list_def GetSize_def)
qed

text \<open>No pair of elements at the same position is unequal by \<open>ne\<close>.\<close>

lemma eq_loop_chain:
  "chain h p xs \<Longrightarrow> chain h q ys \<Longrightarrow> length xs = length ys \<Longrightarrow>
   eq_loop ne h lhs rhs (At p) (At q) =
     Some (Done (\<forall>i < length xs. \<not> ne (snd (xs ! i)) (snd (ys ! i))))"
proof (induction xs arbitrary: p q ys)
  case Nil
  then show ?case by (subst eq_loop.simps) (simp add: end_const_def)
next
  case (Cons x xs)
  obtain a v where x: "x = (a, v)" by (cases x)
  from Cons.prems(3) obtain y ys' where ys: "ys = y # ys'" by (cases ys) auto
  obtain b u where y: "y = (b, u)" by (cases y)
  from Cons.prems(1) x obtain n where n: "p = Some a" "cell h a = Some n" "val n = v"
    "chain h (next_node n) xs"
    by auto
  from Cons.prems(2) ys y obtain m where m: "q = Some b" "cell h b = Some m" "val m = u"
    "chain h (next_node m) ys'"
    by auto
  have split: "(\<forall>i < length (x # xs). \<not> ne (snd ((x # xs) ! i)) (snd (ys ! i))) \<longleftrightarrow>
    \<not> ne v u \<and> (\<forall>i < length xs. \<not> ne (snd (xs ! i)) (snd (ys' ! i)))"
    using x y ys by (auto simp: less_Suc_eq_0_disj)
  show ?case
  proof (cases "ne v u")
    case True
    then have "eq_loop ne h lhs rhs (At p) (At q) = Some (Done False)"
      using n m by (subst eq_loop.simps) (simp add: end_const_def value_of_def)
    with True split show ?thesis by simp
  next
    case False
    from Cons.prems(3) ys have "length xs = length ys'" by simp
    from Cons.IH [OF n(4) m(4) this]
    have "eq_loop ne h lhs rhs (At (next_node n)) (At (next_node m)) =
      Some (Done (\<forall>i < length xs. \<not> ne (snd (xs ! i)) (snd (ys' ! i))))" .
    moreover have "eq_loop ne h lhs rhs (At p) (At q) =
      eq_loop ne h lhs rhs (At (next_node n)) (At (next_node m))"
      using False n m
      by (subst eq_loop.simps) (simp add: end_const_def value_of_def next_of_def)
    ultimately show ?thesis using False split by simp
  qed
qed

lemma op_eq_wf:
  assumes "wf_list w A xs" "wf_list w B ys" "length (heap w) < 2 ^ 64"
  shows "op_eq ne (heap w) A B =
           Some (Done (GetSize A = GetSize B \<and>
                       (\<forall>i < length xs. \<not> ne (snd (xs ! i)) (snd (ys ! i)))))"
proof (cases "length xs = length ys")
  case True
  with assms have s: "GetSize A = GetSize B" by (simp add: size_eq_iff_length_eq)
  moreover from assms(1,2) True
  have "eq_loop ne (heap w) A B (At (head_next_node A)) (At (head_next_node B)) =
    Some (Done (\<forall>i < length xs. \<not> ne (snd (xs ! i)) (snd (ys ! i))))"
    by (intro eq_loop_chain) (simp_all add: wf_list_def)
  ultimately show ?thesis by (simp add: op_eq_def begin_it_def)
next
  case False
  with assms have "GetSize A \<noteq> GetSize B" by (simp add: size_eq_iff_length_eq)
  then show ?thesis by (simp add: op_eq_def)
qed

lemma op_eq_builtin:
  assumes "wf_list w A xs" "wf_list w B ys" "length (heap w) < 2 ^ 64"
  shows "op_eq builtin_ne (heap w) A B = Some (Done (map snd xs = map snd ys))"
proof -
  have "map snd xs = map snd ys \<longleftrightarrow>
        length xs = length ys \<and> (\<forall>i < length xs. snd (xs ! i) = snd (ys ! i))"
    by (auto simp: list_eq_iff_nth_eq)
  with size_eq_iff_length_eq [OF assms] op_eq_wf [OF assms, of builtin_ne]
  show ?thesis by (simp add: builtin_ne_def)
qed

lemma lexicographical_compare_chain:
  "chain h p xs \<Longrightarrow> chain h q ys \<Longrightarrow>
   lexicographical_compare h lhs rhs (At p) (At None) (At q) (At None) =
     Some (Done (lex_less (map snd xs) (map snd ys)))"
proof (induction xs arbitrary: p q ys)
  case Nil
  then show ?case
    by (cases ys) (subst lexicographical_compare.simps, auto)+
next
  case (Cons x xs)
  obtain a v where x: "x = (a, v)" by (cases x)
  from Cons.prems(1) x obtain n where n: "p = Some a" "cell h a = Some n" "val n = v"
    "chain h (next_node n) xs"
    by auto
  show ?case
  proof (cases ys)
    case Nil
    with Cons.prems(2) n show ?thesis
      by (subst lexicographical_compare.simps) simp
  next
    case (Cons y ys')
    obtain b u where y: "y = (b, u)" by (cases y)
    from Cons.prems(2) Cons y obtain m where m: "q = Some b" "cell h b = Some m" "val m = u"
      "chain h (next_node m) ys'"
      by auto
    consider "v < u" | "u < v" | "v = u" by (metis less_linear)
    then show ?thesis
    proof cases
      case 1
      with n m x y Cons show ?thesis
        by (subst lexicographical_compare.simps) (auto simp: value_of_def)
    next
      case 2
      with n m x y Cons show ?thesis
        by (subst lexicographical_compare.simps) (auto simp: value_of_def)
    next
      case 3
      from Cons.IH [OF n(4) m(4)]
      have "lexicographical_compare h lhs rhs (At (next_node n)) (At None)
              (At (next_node m)) (At None) =
            Some (Done (lex_less (map snd xs) (map snd ys')))" .
      moreover have "lexicographical_compare h lhs rhs (At p) (At None) (At q) (At None) =
        lexicographical_compare h lhs rhs (At (next_node n)) (At None)
          (At (next_node m)) (At None)"
        using 3 n m
        by (subst lexicographical_compare.simps) (simp add: value_of_def next_of_def)
      ultimately show ?thesis using 3 x y Cons by simp
    qed
  qed
qed

lemma op_less_wf:
  assumes "wf_list w A xs" "wf_list w B ys"
  shows "op_less (heap w) A B = Some (Done (lex_less (map snd xs) (map snd ys)))"
  using assms
  by (simp add: op_less_def begin_it_def end_const_def wf_list_def lexicographical_compare_chain)

lemma lex_less_lexord: "lex_less xs ys \<longleftrightarrow> (xs, ys) \<in> lexord {(x, y). x < y}"
  by (induction xs ys rule: lex_less.induct) auto

text \<open>
  C7 (amended). On well-formed lists in a store that fits a 64-bit address space, with
  \<open>ne\<close> the \<^verbatim>\<open>operator!=\<close> of the element type: \<^verbatim>\<open>A == B\<close> returns true exactly when
  the sizes are equal and no pair of elements at the same position is unequal by \<open>ne\<close>;
  lists of different sizes are unequal; \<^verbatim>\<open>A != B\<close> returns the negation; and
  \<^verbatim>\<open>L == L\<close> returns true for every list whose elements are each not unequal to
  themselves. When \<open>ne\<close> is the negation of equality, \<^verbatim>\<open>A == B\<close> returns whether the
  element sequences are the same, and every list equals itself.
\<close>

theorem list_equality_is_pairwise:
  assumes "wf_list w A xs" and "wf_list w B ys" and "length (heap w) < 2 ^ 64"
  shows "op_eq ne (heap w) A B =
           Some (Done (GetSize A = GetSize B \<and>
                       (\<forall>i < length xs. \<not> ne (snd (xs ! i)) (snd (ys ! i))))) \<and>
         op_neq ne (heap w) A B =
           Some (Done (\<not> (GetSize A = GetSize B \<and>
                          (\<forall>i < length xs. \<not> ne (snd (xs ! i)) (snd (ys ! i)))))) \<and>
         (GetSize A \<noteq> GetSize B \<longrightarrow> op_eq ne (heap w) A B = Some (Done False)) \<and>
         ((\<forall>v \<in> snd ` set xs. \<not> ne v v) \<longrightarrow> op_eq ne (heap w) A A = Some (Done True)) \<and>
         op_eq builtin_ne (heap w) A B =
           Some (Done (GetSize A = GetSize B \<and>
                       (\<forall>i < length xs. snd (xs ! i) = snd (ys ! i)))) \<and>
         op_eq builtin_ne (heap w) A B = Some (Done (map snd xs = map snd ys)) \<and>
         op_neq builtin_ne (heap w) A B = Some (Done (map snd xs \<noteq> map snd ys)) \<and>
         op_eq builtin_ne (heap w) A A = Some (Done True)"
proof -
  have eq: "op_eq ne (heap w) A B =
           Some (Done (GetSize A = GetSize B \<and>
                       (\<forall>i < length xs. \<not> ne (snd (xs ! i)) (snd (ys ! i)))))"
    using assms by (rule op_eq_wf)
  then have neq: "op_neq ne (heap w) A B =
           Some (Done (\<not> (GetSize A = GetSize B \<and>
                          (\<forall>i < length xs. \<not> ne (snd (xs ! i)) (snd (ys ! i))))))"
    by (simp add: op_neq_def)
  from eq have sizes: "GetSize A \<noteq> GetSize B \<longrightarrow> op_eq ne (heap w) A B = Some (Done False)"
    by simp
  have refl: "(\<forall>v \<in> snd ` set xs. \<not> ne v v) \<longrightarrow> op_eq ne (heap w) A A = Some (Done True)"
    using op_eq_wf [OF assms(1) assms(1) assms(3), of ne] by auto
  have b1: "op_eq builtin_ne (heap w) A B =
           Some (Done (GetSize A = GetSize B \<and>
                       (\<forall>i < length xs. snd (xs ! i) = snd (ys ! i))))"
    using op_eq_wf [OF assms, of builtin_ne] by (simp add: builtin_ne_def)
  have b2: "op_eq builtin_ne (heap w) A B = Some (Done (map snd xs = map snd ys))"
    using assms by (rule op_eq_builtin)
  then have b3: "op_neq builtin_ne (heap w) A B = Some (Done (map snd xs \<noteq> map snd ys))"
    by (simp add: op_neq_def)
  have b4: "op_eq builtin_ne (heap w) A A = Some (Done True)"
    using op_eq_builtin [OF assms(1) assms(1) assms(3)] by simp
  from eq neq sizes refl b1 b2 b3 b4 show ?thesis by blast
qed

theorem list_equality_is_pairwise_witness:
  "wf_list \<lparr>heap = [Some \<lparr>val = 1::int, next_node = None\<rparr>, Some \<lparr>val = 2, next_node = Some 0\<rparr>,
                    Some \<lparr>val = 1, next_node = None\<rparr>, Some \<lparr>val = 2, next_node = Some 2\<rparr>,
                    Some \<lparr>val = 3, next_node = Some 3\<rparr>,
                    Some \<lparr>val = 1, next_node = None\<rparr>, Some \<lparr>val = 2, next_node = Some 5\<rparr>],
            clock = 7\<rparr>
     \<lparr>head_next_node = Some 1, size_field = 2\<rparr> [(1, 2), (0, 1)] \<and>
   op_eq builtin_ne
         [Some \<lparr>val = 1::int, next_node = None\<rparr>, Some \<lparr>val = 2, next_node = Some 0\<rparr>,
          Some \<lparr>val = 1, next_node = None\<rparr>, Some \<lparr>val = 2, next_node = Some 2\<rparr>,
          Some \<lparr>val = 3, next_node = Some 3\<rparr>,
          Some \<lparr>val = 1, next_node = None\<rparr>, Some \<lparr>val = 2, next_node = Some 5\<rparr>]
     \<lparr>head_next_node = Some 1, size_field = 2\<rparr> \<lparr>head_next_node = Some 6, size_field = 2\<rparr> =
     Some (Done True) \<and>
   op_eq builtin_ne
         [Some \<lparr>val = 1::int, next_node = None\<rparr>, Some \<lparr>val = 2, next_node = Some 0\<rparr>,
          Some \<lparr>val = 1, next_node = None\<rparr>, Some \<lparr>val = 2, next_node = Some 2\<rparr>,
          Some \<lparr>val = 3, next_node = Some 3\<rparr>,
          Some \<lparr>val = 1, next_node = None\<rparr>, Some \<lparr>val = 2, next_node = Some 5\<rparr>]
     \<lparr>head_next_node = Some 1, size_field = 2\<rparr> \<lparr>head_next_node = Some 4, size_field = 3\<rparr> =
     Some (Done False) \<and>
   op_neq builtin_ne
         [Some \<lparr>val = 1::int, next_node = None\<rparr>, Some \<lparr>val = 2, next_node = Some 0\<rparr>,
          Some \<lparr>val = 1, next_node = None\<rparr>, Some \<lparr>val = 2, next_node = Some 2\<rparr>,
          Some \<lparr>val = 3, next_node = Some 3\<rparr>,
          Some \<lparr>val = 1, next_node = None\<rparr>, Some \<lparr>val = 2, next_node = Some 5\<rparr>]
     \<lparr>head_next_node = Some 4, size_field = 3\<rparr> \<lparr>head_next_node = Some 1, size_field = 2\<rparr> =
     Some (Done True) \<and>
   op_eq element_ne
         [Some \<lparr>val = Number 7, next_node = None\<rparr>, Some \<lparr>val = Number 8, next_node = Some 0\<rparr>]
     \<lparr>head_next_node = Some 1, size_field = 2\<rparr> \<lparr>head_next_node = Some 1, size_field = 2\<rparr> =
     Some (Done True)"
proof -
  let ?h = "[Some \<lparr>val = 1::int, next_node = None\<rparr>, Some \<lparr>val = 2, next_node = Some 0\<rparr>,
             Some \<lparr>val = 1, next_node = None\<rparr>, Some \<lparr>val = 2, next_node = Some 2\<rparr>,
             Some \<lparr>val = 3, next_node = Some 3\<rparr>,
             Some \<lparr>val = 1, next_node = None\<rparr>, Some \<lparr>val = 2, next_node = Some 5\<rparr>]"
  let ?w = "\<lparr>heap = ?h, clock = 7\<rparr>"
  let ?l1 = "\<lparr>head_next_node = Some 1, size_field = 2\<rparr>"
  let ?l2 = "\<lparr>head_next_node = Some 4, size_field = 3\<rparr>"
  let ?l3 = "\<lparr>head_next_node = Some 6, size_field = 2\<rparr>"
  let ?g = "[Some \<lparr>val = Number 7, next_node = None\<rparr>, Some \<lparr>val = Number 8, next_node = Some 0\<rparr>]"
  let ?v = "\<lparr>heap = ?g, clock = 2\<rparr>"
  have wf1: "wf_list ?w ?l1 [(1, 2), (0, 1)]" by (simp add: wf_list_def cell_def)
  have wf2: "wf_list ?w ?l2 [(4, 3), (3, 2), (2, 1)]" by (simp add: wf_list_def cell_def)
  have wf3: "wf_list ?w ?l3 [(6, 2), (5, 1)]" by (simp add: wf_list_def cell_def)
  have wfe: "wf_list ?v ?l1 [(1, Number 8), (0, Number 7)]" by (simp add: wf_list_def cell_def)
  have small: "length (heap ?w) < 2 ^ 64" by simp
  have smalle: "length (heap ?v) < 2 ^ 64" by simp
  note t13 = list_equality_is_pairwise [OF wf1 wf3 small, of builtin_ne,
    THEN conjunct2, THEN conjunct2, THEN conjunct2, THEN conjunct2, THEN conjunct2,
    THEN conjunct1]
  note t12 = list_equality_is_pairwise [OF wf1 wf2 small, of builtin_ne,
    THEN conjunct2, THEN conjunct2, THEN conjunct2, THEN conjunct2, THEN conjunct2,
    THEN conjunct1]
  note t21 = list_equality_is_pairwise [OF wf2 wf1 small, of builtin_ne,
    THEN conjunct2, THEN conjunct2, THEN conjunct2, THEN conjunct2, THEN conjunct2,
    THEN conjunct2, THEN conjunct1]
  note te = list_equality_is_pairwise [OF wfe wfe smalle, of element_ne,
    THEN conjunct2, THEN conjunct2, THEN conjunct2, THEN conjunct1]
  have "op_eq builtin_ne ?h ?l1 ?l3 = Some (Done True)" using t13 by simp
  moreover have "op_eq builtin_ne ?h ?l1 ?l2 = Some (Done False)" using t12 by simp
  moreover have "op_neq builtin_ne ?h ?l2 ?l1 = Some (Done True)" using t21 by simp
  moreover have "op_eq element_ne ?g ?l1 ?l1 = Some (Done True)" using te by simp
  ultimately show ?thesis using wf1 by simp
qed

text \<open>
  C7 as stated fails in its part on reflexivity: a list of one element that is unequal
  to itself, as the not-a-number value of \<^verbatim>\<open>double\<close> is, does not equal itself.
\<close>

theorem list_equality_not_reflexive_counterexample:
  "wf_list \<lparr>heap = [Some \<lparr>val = NaN, next_node = None\<rparr>], clock = 1\<rparr>
     \<lparr>head_next_node = Some 0, size_field = 1\<rparr> [(0, NaN)] \<and>
   op_eq element_ne [Some \<lparr>val = NaN, next_node = None\<rparr>]
     \<lparr>head_next_node = Some 0, size_field = 1\<rparr> \<lparr>head_next_node = Some 0, size_field = 1\<rparr> =
     Some (Done False)"
proof -
  have "wf_list \<lparr>heap = [Some \<lparr>val = NaN, next_node = None\<rparr>], clock = 1\<rparr>
     \<lparr>head_next_node = Some 0, size_field = 1\<rparr> [(0, NaN)]"
    by (simp add: wf_list_def cell_def)
  moreover have "op_eq element_ne [Some \<lparr>val = NaN, next_node = None\<rparr>]
     \<lparr>head_next_node = Some 0, size_field = 1\<rparr> \<lparr>head_next_node = Some 0, size_field = 1\<rparr> =
     Some (Done False)"
    by code_simp
  ultimately show ?thesis by simp
qed


text \<open>
  C8. On well-formed lists over a linearly ordered element type, in a store that fits a
  64-bit address space: \<^verbatim>\<open>A < B\<close> returns whether the element sequence of \<open>A\<close> is
  lexicographically less than that of \<open>B\<close> (the first differing pair decides, a proper
  prefix is less); \<^verbatim>\<open>A <= B\<close> returns \<^verbatim>\<open>A == B || A < B\<close>, \<^verbatim>\<open>A > B\<close> returns
  \<^verbatim>\<open>!(A <= B)\<close>, and \<^verbatim>\<open>A >= B\<close> returns \<^verbatim>\<open>A > B || A == B\<close>, whatever the
  \<^verbatim>\<open>operator!=\<close> of the element type is; when it is the negation of equality,
  \<^verbatim>\<open>A == B\<close> is the equality of the element sequences.
\<close>

theorem ordering_is_lexicographic:
  fixes w :: "('a::linorder) world"
  assumes "wf_list w A xs" and "wf_list w B ys" and "length (heap w) < 2 ^ 64"
  shows "\<exists>eq lt le gt.
           op_eq ne (heap w) A B = Some (Done eq) \<and>
           eq = (GetSize A = GetSize B \<and>
                 (\<forall>i < length xs. \<not> ne (snd (xs ! i)) (snd (ys ! i)))) \<and>
           (ne = builtin_ne \<longrightarrow> eq = (map snd xs = map snd ys)) \<and>
           op_less (heap w) A B = Some (Done lt) \<and>
           lt = lex_less (map snd xs) (map snd ys) \<and>
           lt = ((map snd xs, map snd ys) \<in> lexord {(x, y). x < y}) \<and>
           op_le ne (heap w) A B = Some (Done le) \<and> le = (eq \<or> lt) \<and>
           op_gt ne (heap w) A B = Some (Done gt) \<and> gt = (\<not> le) \<and>
           op_ge ne (heap w) A B = Some (Done (gt \<or> eq))"
proof -
  define eq where
    "eq = (GetSize A = GetSize B \<and> (\<forall>i < length xs. \<not> ne (snd (xs ! i)) (snd (ys ! i))))"
  define lt where "lt = lex_less (map snd xs) (map snd ys)"
  have eq: "op_eq ne (heap w) A B = Some (Done eq)"
    unfolding eq_def using assms by (rule op_eq_wf)
  have b: "ne = builtin_ne \<longrightarrow> eq = (map snd xs = map snd ys)"
    using eq op_eq_builtin [OF assms] by auto
  have lt: "op_less (heap w) A B = Some (Done lt)"
    unfolding lt_def using assms(1,2) by (rule op_less_wf)
  have le: "op_le ne (heap w) A B = Some (Done (eq \<or> lt))"
    by (cases eq) (simp_all add: op_le_def eq lt)
  then have gt: "op_gt ne (heap w) A B = Some (Done (\<not> (eq \<or> lt)))"
    by (simp add: op_gt_def)
  then have ge: "op_ge ne (heap w) A B = Some (Done (\<not> (eq \<or> lt) \<or> eq))"
    by (cases "eq \<or> lt") (simp_all add: op_ge_def eq)
  have "lt = ((map snd xs, map snd ys) \<in> lexord {(x, y). x < y})"
    unfolding lt_def by (rule lex_less_lexord)
  with eq b lt le gt ge eq_def lt_def show ?thesis
    by blast
qed

theorem ordering_is_lexicographic_witness:
  "wf_list \<lparr>heap = [Some \<lparr>val = 3::int, next_node = None\<rparr>, Some \<lparr>val = 2, next_node = Some 0\<rparr>,
            Some \<lparr>val = 1, next_node = Some 1\<rparr>,
            Some \<lparr>val = 1, next_node = None\<rparr>, Some \<lparr>val = 3, next_node = Some 3\<rparr>,
            Some \<lparr>val = 2, next_node = Some 4\<rparr>, Some \<lparr>val = 1, next_node = Some 5\<rparr>,
            Some \<lparr>val = 4, next_node = None\<rparr>, Some \<lparr>val = 2, next_node = Some 7\<rparr>,
            Some \<lparr>val = 1, next_node = Some 8\<rparr>,
            Some \<lparr>val = 3, next_node = None\<rparr>, Some \<lparr>val = 2, next_node = Some 10\<rparr>,
            Some \<lparr>val = 1, next_node = Some 11\<rparr>],
            clock = 13\<rparr>
     \<lparr>head_next_node = Some 2, size_field = 3\<rparr> [(2, 1), (1, 2), (0, 3)] \<and>
   op_less [Some \<lparr>val = 3::int, next_node = None\<rparr>, Some \<lparr>val = 2, next_node = Some 0\<rparr>,
            Some \<lparr>val = 1, next_node = Some 1\<rparr>,
            Some \<lparr>val = 1, next_node = None\<rparr>, Some \<lparr>val = 3, next_node = Some 3\<rparr>,
            Some \<lparr>val = 2, next_node = Some 4\<rparr>, Some \<lparr>val = 1, next_node = Some 5\<rparr>,
            Some \<lparr>val = 4, next_node = None\<rparr>, Some \<lparr>val = 2, next_node = Some 7\<rparr>,
            Some \<lparr>val = 1, next_node = Some 8\<rparr>,
            Some \<lparr>val = 3, next_node = None\<rparr>, Some \<lparr>val = 2, next_node = Some 10\<rparr>,
            Some \<lparr>val = 1, next_node = Some 11\<rparr>]
     \<lparr>head_next_node = Some 2, size_field = 3\<rparr> \<lparr>head_next_node = Some 6, size_field = 4\<rparr> =
     Some (Done True) \<and>
   op_le builtin_ne [Some \<lparr>val = 3::int, next_node = None\<rparr>, Some \<lparr>val = 2, next_node = Some 0\<rparr>,
            Some \<lparr>val = 1, next_node = Some 1\<rparr>,
            Some \<lparr>val = 1, next_node = None\<rparr>, Some \<lparr>val = 3, next_node = Some 3\<rparr>,
            Some \<lparr>val = 2, next_node = Some 4\<rparr>, Some \<lparr>val = 1, next_node = Some 5\<rparr>,
            Some \<lparr>val = 4, next_node = None\<rparr>, Some \<lparr>val = 2, next_node = Some 7\<rparr>,
            Some \<lparr>val = 1, next_node = Some 8\<rparr>,
            Some \<lparr>val = 3, next_node = None\<rparr>, Some \<lparr>val = 2, next_node = Some 10\<rparr>,
            Some \<lparr>val = 1, next_node = Some 11\<rparr>]
     \<lparr>head_next_node = Some 2, size_field = 3\<rparr> \<lparr>head_next_node = Some 12, size_field = 3\<rparr> =
     Some (Done True) \<and>
   op_gt builtin_ne [Some \<lparr>val = 3::int, next_node = None\<rparr>, Some \<lparr>val = 2, next_node = Some 0\<rparr>,
            Some \<lparr>val = 1, next_node = Some 1\<rparr>,
            Some \<lparr>val = 1, next_node = None\<rparr>, Some \<lparr>val = 3, next_node = Some 3\<rparr>,
            Some \<lparr>val = 2, next_node = Some 4\<rparr>, Some \<lparr>val = 1, next_node = Some 5\<rparr>,
            Some \<lparr>val = 4, next_node = None\<rparr>, Some \<lparr>val = 2, next_node = Some 7\<rparr>,
            Some \<lparr>val = 1, next_node = Some 8\<rparr>,
            Some \<lparr>val = 3, next_node = None\<rparr>, Some \<lparr>val = 2, next_node = Some 10\<rparr>,
            Some \<lparr>val = 1, next_node = Some 11\<rparr>]
     \<lparr>head_next_node = Some 9, size_field = 3\<rparr> \<lparr>head_next_node = Some 2, size_field = 3\<rparr> =
     Some (Done True) \<and>
   op_ge builtin_ne [Some \<lparr>val = 3::int, next_node = None\<rparr>, Some \<lparr>val = 2, next_node = Some 0\<rparr>,
            Some \<lparr>val = 1, next_node = Some 1\<rparr>,
            Some \<lparr>val = 1, next_node = None\<rparr>, Some \<lparr>val = 3, next_node = Some 3\<rparr>,
            Some \<lparr>val = 2, next_node = Some 4\<rparr>, Some \<lparr>val = 1, next_node = Some 5\<rparr>,
            Some \<lparr>val = 4, next_node = None\<rparr>, Some \<lparr>val = 2, next_node = Some 7\<rparr>,
            Some \<lparr>val = 1, next_node = Some 8\<rparr>,
            Some \<lparr>val = 3, next_node = None\<rparr>, Some \<lparr>val = 2, next_node = Some 10\<rparr>,
            Some \<lparr>val = 1, next_node = Some 11\<rparr>]
     \<lparr>head_next_node = Some 2, size_field = 3\<rparr> \<lparr>head_next_node = Some 12, size_field = 3\<rparr> =
     Some (Done True)"
proof -
  let ?h = "[Some \<lparr>val = 3::int, next_node = None\<rparr>, Some \<lparr>val = 2, next_node = Some 0\<rparr>,
            Some \<lparr>val = 1, next_node = Some 1\<rparr>,
            Some \<lparr>val = 1, next_node = None\<rparr>, Some \<lparr>val = 3, next_node = Some 3\<rparr>,
            Some \<lparr>val = 2, next_node = Some 4\<rparr>, Some \<lparr>val = 1, next_node = Some 5\<rparr>,
            Some \<lparr>val = 4, next_node = None\<rparr>, Some \<lparr>val = 2, next_node = Some 7\<rparr>,
            Some \<lparr>val = 1, next_node = Some 8\<rparr>,
            Some \<lparr>val = 3, next_node = None\<rparr>, Some \<lparr>val = 2, next_node = Some 10\<rparr>,
            Some \<lparr>val = 1, next_node = Some 11\<rparr>]"
  let ?w = "\<lparr>heap = ?h, clock = 13\<rparr>"
  let ?a = "\<lparr>head_next_node = Some 2, size_field = 3\<rparr>"
  let ?b = "\<lparr>head_next_node = Some 6, size_field = 4\<rparr>"
  let ?c = "\<lparr>head_next_node = Some 9, size_field = 3\<rparr>"
  let ?d = "\<lparr>head_next_node = Some 12, size_field = 3\<rparr>"
  have a: "wf_list ?w ?a [(2, 1), (1, 2), (0, 3)]" by (simp add: wf_list_def cell_def)
  have b: "wf_list ?w ?b [(6, 1), (5, 2), (4, 3), (3, 1)]" by (simp add: wf_list_def cell_def)
  have c: "wf_list ?w ?c [(9, 1), (8, 2), (7, 4)]" by (simp add: wf_list_def cell_def)
  have d: "wf_list ?w ?d [(12, 1), (11, 2), (10, 3)]" by (simp add: wf_list_def cell_def)
  have small: "length (heap ?w) < 2 ^ 64" by simp
  have "op_less ?h ?a ?b = Some (Done True)"
    using ordering_is_lexicographic [OF a b small, of builtin_ne] by auto
  moreover have "op_le builtin_ne ?h ?a ?d = Some (Done True)"
    using ordering_is_lexicographic [OF a d small, of builtin_ne] by auto
  moreover have "op_gt builtin_ne ?h ?c ?a = Some (Done True)"
    using ordering_is_lexicographic [OF c a small, of builtin_ne] by auto
  moreover have "op_ge builtin_ne ?h ?a ?d = Some (Done True)"
    using ordering_is_lexicographic [OF a d small, of builtin_ne] by auto
  ultimately show ?thesis using a by simp
qed

end
